theory Spec2Isabelle
  imports Main "HOL-Library.Word" "HOL-Library.Sublist"
begin

unbundle bit_operations_syntax

section \<open>Machine types of the contracts\<close>

text \<open>
  Solidity's \<open>bytes32\<close>, \<open>uint256\<close> and \<open>int256\<close> are all 256-bit words; the casts
  between them (\<open>uint256(word)\<close>, \<open>bytes32(x)\<close>, \<open>int256(x)\<close>) keep the bits and are the
  identity here. An \<open>int256\<close> is read as a two's complement number with \<open>sint\<close>, a
  \<open>uint256\<close> with \<open>unat\<close>; the order \<open><\<close> on words is the unsigned one. Shift
  amounts and bit lengths are the constants of the callers and are natural numbers.
\<close>

type_synonym bytes32 = "256 word"
type_synonym uint256 = "256 word"
type_synonym int256 = "256 word"
type_synonym address = "160 word"

section \<open>WordCodec\<close>

text \<open>
  Modelled from the spec: the library \<open>WordCodec\<close> (and its external twin
  \<open>WordCodecExternal\<close>, file \<open>solidity-utils/contracts/helpers/WordCodec.sol\<close>) is
  not among the sources; only its callers are. The spec names it the bit-packed
  storage-slot codec, and the callers fix its interface: a field of \<open>bitLength\<close> bits
  at bit \<open>offset\<close> of a 256-bit word, decoded by shifting right and masking, inserted
  by clearing the field and OR-ing in the shifted value; signed fields are stored in
  two's complement of \<open>bitLength\<close> bits and sign-extended when read. A check that
  the inserted value fits the field, if the library makes one, is not modelled: every
  statement below is about values that fit.
\<close>

text \<open>Modelled from the spec: \<open>WordCodec.decodeUint\<close>, absent from the sources: the unsigned field of \<open>bitLength\<close> bits at \<open>offset\<close>.\<close>

definition decodeUint :: "bytes32 \<Rightarrow> nat \<Rightarrow> nat \<Rightarrow> uint256" where
  "decodeUint word offset bitLength = drop_bit offset word AND (push_bit bitLength 1 - 1)"

text \<open>Modelled from the spec: \<open>WordCodec.decodeInt\<close>, absent from the sources: the field read as a two's complement number of \<open>bitLength\<close> bits, its sign extended to 256 bits.\<close>

definition decodeInt :: "bytes32 \<Rightarrow> nat \<Rightarrow> nat \<Rightarrow> int256" where
  "decodeInt word offset bitLength =
     (let maxInt = (push_bit (bitLength - 1) 1 - 1 :: int256);
          mask = (push_bit bitLength 1 - 1 :: uint256);
          value = drop_bit offset word AND mask
      in if sint maxInt < sint value then value OR NOT mask else value)"

text \<open>Modelled from the spec: \<open>WordCodec.decodeBool\<close>, absent from the sources: the bit at \<open>offset\<close>.\<close>

definition decodeBool :: "bytes32 \<Rightarrow> nat \<Rightarrow> bool" where
  "decodeBool word offset = (drop_bit offset word AND 1 = 1)"

text \<open>Modelled from the spec: \<open>WordCodec.insertUint\<close>, absent from the sources: the field is cleared and the shifted value is OR-ed in.\<close>

definition insertUint :: "bytes32 \<Rightarrow> uint256 \<Rightarrow> nat \<Rightarrow> nat \<Rightarrow> bytes32" where
  "insertUint word value offset bitLength =
     (let mask = (push_bit bitLength 1 - 1 :: uint256);
          clearedWord = word AND NOT (push_bit offset mask)
      in clearedWord OR push_bit offset value)"

text \<open>Modelled from the spec: \<open>WordCodec.insertInt\<close>, absent from the sources: as \<open>insertUint\<close>, with the value cut to \<open>bitLength\<close> bits first, which removes the upper bits of a negative value.\<close>

definition insertInt :: "bytes32 \<Rightarrow> int256 \<Rightarrow> nat \<Rightarrow> nat \<Rightarrow> bytes32" where
  "insertInt word value offset bitLength =
     (let mask = (push_bit bitLength 1 - 1 :: uint256);
          clearedWord = word AND NOT (push_bit offset mask)
      in clearedWord OR push_bit offset (value AND mask))"

text \<open>Modelled from the spec: \<open>WordCodec.insertBool\<close>, absent from the sources: the bit at \<open>offset\<close> is cleared and set to the value.\<close>

definition insertBool :: "bytes32 \<Rightarrow> bool \<Rightarrow> nat \<Rightarrow> bytes32" where
  "insertBool word value offset =
     (let clearedWord = word AND NOT (push_bit offset 1)
      in clearedWord OR push_bit offset (if value then 1 else 0))"

text \<open>Modelled from the spec: the mask of the 192 low bits used by \<open>WordCodec.insertBits192\<close>.\<close>

definition MASK_192 :: uint256 where
  "MASK_192 = 2 ^ 192 - 1"

text \<open>Modelled from the spec: \<open>WordCodec.insertBits192\<close>, absent from the sources: 192 bits of the value replace the 192 bits of the word from \<open>offset\<close> on.\<close>

definition insertBits192 :: "bytes32 \<Rightarrow> bytes32 \<Rightarrow> nat \<Rightarrow> bytes32" where
  "insertBits192 word value offset =
     (let clearedWord = word AND NOT (push_bit offset MASK_192)
      in clearedWord OR push_bit offset (value AND MASK_192))"

section \<open>MetaStablePoolOracleMiscData\<close>

text \<open>
  The library of the first source file: five fields in the low 86 bits of a word,
  \<open>[ not used | oracle enabled | oracle index | sample timestamp | log supply | log invariant ]\<close>
  of widths \<open>170 | 1 | 10 | 31 | 22 | 22\<close>.
\<close>

definition LOG_INVARIANT_OFFSET :: nat where
  "LOG_INVARIANT_OFFSET = 0"

definition LOG_TOTAL_SUPPLY_OFFSET :: nat where
  "LOG_TOTAL_SUPPLY_OFFSET = 22"

definition ORACLE_SAMPLE_CREATION_TIMESTAMP_OFFSET :: nat where
  "ORACLE_SAMPLE_CREATION_TIMESTAMP_OFFSET = 44"

definition ORACLE_INDEX_OFFSET :: nat where
  "ORACLE_INDEX_OFFSET = 75"

definition ORACLE_ENABLED_OFFSET :: nat where
  "ORACLE_ENABLED_OFFSET = 85"

definition logInvariant :: "bytes32 \<Rightarrow> int256" where
  "logInvariant data = decodeInt data LOG_INVARIANT_OFFSET 22"

definition logTotalSupply :: "bytes32 \<Rightarrow> int256" where
  "logTotalSupply data = decodeInt data LOG_TOTAL_SUPPLY_OFFSET 22"

definition oracleSampleCreationTimestamp :: "bytes32 \<Rightarrow> uint256" where
  "oracleSampleCreationTimestamp data = decodeUint data ORACLE_SAMPLE_CREATION_TIMESTAMP_OFFSET 31"

definition oracleIndex :: "bytes32 \<Rightarrow> uint256" where
  "oracleIndex data = decodeUint data ORACLE_INDEX_OFFSET 10"

definition oracleEnabled :: "bytes32 \<Rightarrow> bool" where
  "oracleEnabled data = decodeBool data ORACLE_ENABLED_OFFSET"

definition setLogInvariant :: "bytes32 \<Rightarrow> int256 \<Rightarrow> bytes32" where
  "setLogInvariant data v = insertInt data v LOG_INVARIANT_OFFSET 22"

definition setLogTotalSupply :: "bytes32 \<Rightarrow> int256 \<Rightarrow> bytes32" where
  "setLogTotalSupply data v = insertInt data v LOG_TOTAL_SUPPLY_OFFSET 22"

definition setOracleSampleCreationTimestamp :: "bytes32 \<Rightarrow> uint256 \<Rightarrow> bytes32" where
  "setOracleSampleCreationTimestamp data v =
     insertUint data v ORACLE_SAMPLE_CREATION_TIMESTAMP_OFFSET 31"

definition setOracleIndex :: "bytes32 \<Rightarrow> uint256 \<Rightarrow> bytes32" where
  "setOracleIndex data v = insertUint data v ORACLE_INDEX_OFFSET 10"

definition setOracleEnabled :: "bytes32 \<Rightarrow> bool \<Rightarrow> bytes32" where
  "setOracleEnabled data v = insertBool data v ORACLE_ENABLED_OFFSET"

text \<open>The declared range of each field, as a predicate on the value handed to the setter.\<close>

definition fits_uint :: "nat \<Rightarrow> uint256 \<Rightarrow> bool" where
  "fits_uint bitLength v = (unat v < 2 ^ bitLength)"

definition fits_int :: "nat \<Rightarrow> int256 \<Rightarrow> bool" where
  "fits_int bitLength v = (- (2 ^ (bitLength - 1)) \<le> sint v \<and> sint v < 2 ^ (bitLength - 1))"

section \<open>Reverts, callers and external calls\<close>

text \<open>
  A revert is a value: every \<open>require\<close> of the source is a branch returning \<open>Inl\<close>
  of its error. \<open>EXTERNAL\<close> is a revert that comes back from a call into a contract
  outside the sources (the vault, the fees collector, an asset manager) or from an
  inherited constructor. Events are not part of the model.
\<close>

datatype error =
    MIN_TOKENS
  | MAX_TOKENS
  | UNSORTED_ARRAY
  | MIN_SWAP_FEE_PERCENTAGE
  | MAX_SWAP_FEE_PERCENTAGE
  | SENDER_NOT_ALLOWED
  | PAUSED
  | OUT_OF_BOUNDS
  | WITHDRAW_DENYLISTED_TOKEN
  | TOKEN_ALREADY_DENYLISTED
  | TOKEN_NOT_DENYLISTED
  | EXTERNAL nat

text \<open>The external functions guarded by \<open>authenticate\<close>, named by their selector.\<close>

datatype selector =
    SetSwapFeePercentageSel
  | SetAssetManagerPoolConfigSel
  | PauseSel
  | UnpauseSel
  | WithdrawCollectedFeesSel
  | DenylistTokenSel
  | AllowlistTokenSel

record msg =
  sender :: address
  timestamp :: uint256

text \<open>
  A state-changing call either reverts, and then the storage is what it was before the
  call, or returns the new storage.
\<close>

definition transact :: "error + 's \<Rightarrow> 's \<Rightarrow> 's" where
  "transact r s = (case r of Inl e \<Rightarrow> s | Inr s' \<Rightarrow> s')"

section \<open>BaseTokenlessPool\<close>

datatype specialization = GENERAL | MINIMAL_SWAP_INFO | TWO_TOKEN

text \<open>
  What the contract inherits or calls and the sources do not contain is a parameter:
  the abstract \<open>_getMaxTokens\<close>, \<open>InputHelpers.ensureArrayIsSorted\<close> (true when it
  does not revert), the decision of the \<open>authenticate\<close> modifier, the state
  \<open>'p\<close> and the operations of \<open>TemporarilyPausable\<close>, the vault's
  \<open>registerPool\<close>, \<open>registerTokens\<close> and \<open>getProtocolFeesCollector\<close>, and the
  asset manager's \<open>setConfig\<close> reached through \<open>getPoolTokenInfo\<close>. An external
  call that can fail returns the error, or \<open>None\<close> for success.
\<close>

record 'p pool_env =
  getMaxTokens :: nat
  ensureArrayIsSorted :: "address list \<Rightarrow> bool"
  pool_canPerform :: "selector \<Rightarrow> address \<Rightarrow> bool"
  initPausable :: "uint256 \<Rightarrow> uint256 \<Rightarrow> uint256 \<Rightarrow> error + 'p"
  notPaused :: "uint256 \<Rightarrow> 'p \<Rightarrow> bool"
  setPaused :: "uint256 \<Rightarrow> bool \<Rightarrow> 'p \<Rightarrow> error + 'p"
  registerPool :: "specialization \<Rightarrow> error + bytes32"
  registerTokens :: "bytes32 \<Rightarrow> address list \<Rightarrow> address list \<Rightarrow> error option"
  vault_getProtocolFeesCollector :: address
  setConfig :: "bytes32 \<Rightarrow> address \<Rightarrow> 8 word list \<Rightarrow> error option"

text \<open>
  The storage of the pool: the one mutable slot \<open>_miscData\<close>, the three immutables,
  and the state of \<open>TemporarilyPausable\<close>.
\<close>

record 'p pool =
  miscData :: bytes32
  vault :: address
  poolId :: bytes32
  protocolFeesCollector :: address
  pausable :: 'p

definition MIN_TOKENS_COUNT :: nat where
  "MIN_TOKENS_COUNT = 2"

definition MIN_SWAP_FEE :: uint256 where
  "MIN_SWAP_FEE = 1000000000000"

definition MAX_SWAP_FEE :: uint256 where
  "MAX_SWAP_FEE = 100000000000000000"

definition SWAP_FEE_PERCENTAGE_OFFSET :: nat where
  "SWAP_FEE_PERCENTAGE_OFFSET = 192"

definition getVault :: "'p pool \<Rightarrow> address" where
  "getVault s = vault s"

definition getPoolId :: "'p pool \<Rightarrow> bytes32" where
  "getPoolId s = poolId s"

definition getProtocolFeesCollector :: "'p pool \<Rightarrow> address" where
  "getProtocolFeesCollector s = protocolFeesCollector s"

definition getSwapFeePercentage :: "'p pool \<Rightarrow> uint256" where
  "getSwapFeePercentage s = decodeUint (miscData s) SWAP_FEE_PERCENTAGE_OFFSET 64"

definition getMinSwapFeePercentage :: uint256 where
  "getMinSwapFeePercentage = MIN_SWAP_FEE"

definition getMaxSwapFeePercentage :: uint256 where
  "getMaxSwapFeePercentage = MAX_SWAP_FEE"

definition internal_setSwapFeePercentage :: "uint256 \<Rightarrow> 'p pool \<Rightarrow> error + 'p pool" where
  "internal_setSwapFeePercentage swapFeePercentage s =
     (if \<not> getMinSwapFeePercentage \<le> swapFeePercentage then Inl MIN_SWAP_FEE_PERCENTAGE
      else if \<not> swapFeePercentage \<le> getMaxSwapFeePercentage then Inl MAX_SWAP_FEE_PERCENTAGE
      else Inr (s\<lparr>miscData :=
                  insertUint (miscData s) swapFeePercentage SWAP_FEE_PERCENTAGE_OFFSET 64\<rparr>))"

definition setSwapFeePercentage ::
  "'p pool_env \<Rightarrow> msg \<Rightarrow> uint256 \<Rightarrow> 'p pool \<Rightarrow> error + 'p pool" where
  "setSwapFeePercentage env m swapFeePercentage s =
     (if \<not> pool_canPerform env SetSwapFeePercentageSel (sender m) then Inl SENDER_NOT_ALLOWED
      else if \<not> notPaused env (timestamp m) (pausable s) then Inl PAUSED
      else internal_setSwapFeePercentage swapFeePercentage s)"

definition internal_setAssetManagerPoolConfig ::
  "'p pool_env \<Rightarrow> address \<Rightarrow> 8 word list \<Rightarrow> 'p pool \<Rightarrow> error + 'p pool" where
  "internal_setAssetManagerPoolConfig env token poolConfig s =
     (case setConfig env (getPoolId s) token poolConfig of
        Some e \<Rightarrow> Inl e
      | None \<Rightarrow> Inr s)"

definition setAssetManagerPoolConfig ::
  "'p pool_env \<Rightarrow> msg \<Rightarrow> address \<Rightarrow> 8 word list \<Rightarrow> 'p pool \<Rightarrow> error + 'p pool" where
  "setAssetManagerPoolConfig env m token poolConfig s =
     (if \<not> pool_canPerform env SetAssetManagerPoolConfigSel (sender m) then Inl SENDER_NOT_ALLOWED
      else if \<not> notPaused env (timestamp m) (pausable s) then Inl PAUSED
      else internal_setAssetManagerPoolConfig env token poolConfig s)"

definition internal_setPaused ::
  "'p pool_env \<Rightarrow> msg \<Rightarrow> bool \<Rightarrow> 'p pool \<Rightarrow> error + 'p pool" where
  "internal_setPaused env m paused s =
     (case setPaused env (timestamp m) paused (pausable s) of
        Inl e \<Rightarrow> Inl e
      | Inr p \<Rightarrow> Inr (s\<lparr>pausable := p\<rparr>))"

definition pause :: "'p pool_env \<Rightarrow> msg \<Rightarrow> 'p pool \<Rightarrow> error + 'p pool" where
  "pause env m s =
     (if \<not> pool_canPerform env PauseSel (sender m) then Inl SENDER_NOT_ALLOWED
      else internal_setPaused env m True s)"

definition unpause :: "'p pool_env \<Rightarrow> msg \<Rightarrow> 'p pool \<Rightarrow> error + 'p pool" where
  "unpause env m s =
     (if \<not> pool_canPerform env UnpauseSel (sender m) then Inl SENDER_NOT_ALLOWED
      else internal_setPaused env m False s)"

definition internal_getMiscData :: "'p pool \<Rightarrow> bytes32" where
  "internal_getMiscData s = miscData s"

definition internal_setMiscData :: "bytes32 \<Rightarrow> 'p pool \<Rightarrow> 'p pool" where
  "internal_setMiscData newData s = s\<lparr>miscData := insertBits192 (miscData s) newData 0\<rparr>"

text \<open>
  The constructor. The inherited constructors run first (of them only the one of
  \<open>TemporarilyPausable\<close> leaves state in the model), then the body in the order
  of the source. \<open>_miscData\<close> starts as the zero word, and the immutables are
  assigned last.
\<close>

definition pool_constructor ::
  "'p pool_env \<Rightarrow> msg \<Rightarrow> address \<Rightarrow> specialization \<Rightarrow> address list \<Rightarrow> address list \<Rightarrow>
     uint256 \<Rightarrow> uint256 \<Rightarrow> uint256 \<Rightarrow> address \<Rightarrow> error + 'p pool" where
  "pool_constructor env m vault_arg specialization_arg tokens assetManagers swapFeePercentage
       pauseWindowDuration bufferPeriodDuration owner =
     (case initPausable env pauseWindowDuration bufferPeriodDuration (timestamp m) of
        Inl e \<Rightarrow> Inl e
      | Inr p \<Rightarrow>
          if \<not> MIN_TOKENS_COUNT \<le> length tokens then Inl MIN_TOKENS
          else if \<not> length tokens \<le> getMaxTokens env then Inl MAX_TOKENS
          else if \<not> ensureArrayIsSorted env tokens then Inl UNSORTED_ARRAY
          else
            (case internal_setSwapFeePercentage swapFeePercentage
                    \<lparr>miscData = 0, vault = 0, poolId = 0, protocolFeesCollector = 0,
                     pausable = p\<rparr> of
               Inl e \<Rightarrow> Inl e
             | Inr s \<Rightarrow>
                 (case registerPool env specialization_arg of
                    Inl e \<Rightarrow> Inl e
                  | Inr pid \<Rightarrow>
                      (case registerTokens env pid tokens assetManagers of
                         Some e \<Rightarrow> Inl e
                       | None \<Rightarrow>
                           Inr (s\<lparr>vault := vault_arg, poolId := pid,
                                  protocolFeesCollector :=
                                    vault_getProtocolFeesCollector env\<rparr>)))))"

text \<open>
  The calls that can change the pool after construction: the four external functions
  and, for the contracts that derive from this one, the internal \<open>_setMiscData\<close>.
  \<open>pool_exec\<close> runs a sequence of calls, each in the environment and under the
  message it was made with; a call that reverts leaves the storage as it was.
\<close>

datatype pool_call =
    SetSwapFeePercentage uint256
  | SetAssetManagerPoolConfig address "8 word list"
  | Pause
  | Unpause
  | InternalSetMiscData bytes32

fun pool_step :: "'p pool_env \<Rightarrow> msg \<Rightarrow> pool_call \<Rightarrow> 'p pool \<Rightarrow> error + 'p pool" where
  "pool_step env m (SetSwapFeePercentage v) s = setSwapFeePercentage env m v s"
| "pool_step env m (SetAssetManagerPoolConfig token poolConfig) s =
     setAssetManagerPoolConfig env m token poolConfig s"
| "pool_step env m Pause s = pause env m s"
| "pool_step env m Unpause s = unpause env m s"
| "pool_step env m (InternalSetMiscData newData) s = Inr (internal_setMiscData newData s)"

fun pool_exec :: "('p pool_env \<times> msg \<times> pool_call) list \<Rightarrow> 'p pool \<Rightarrow> 'p pool" where
  "pool_exec [] s = s"
| "pool_exec ((env, m, c) # cs) s = pool_exec cs (transact (pool_step env m c s) s)"

section \<open>EnumerableSet\<close>

text \<open>
  Modelled from the spec: the library \<open>EnumerableSet\<close>
  (\<open>solidity-utils/contracts/openzeppelin/EnumerableSet.sol\<close>) is not among the
  sources; only its caller, the withdrawal safety layer that blocks specific tokens, is.
  An \<open>AddressSet\<close> is the array of its members, in the order \<open>at\<close> enumerates
  them. \<open>add\<close> appends a value that is not yet a member and returns whether it did;
  \<open>remove\<close> deletes a member by moving the last element into its place and
  shortening the array, and returns whether it did; \<open>at\<close> reverts beyond the end.
\<close>

text \<open>Modelled from the spec: \<open>EnumerableSet.contains\<close>, absent from the sources.\<close>

definition es_contains :: "address list \<Rightarrow> address \<Rightarrow> bool" where
  "es_contains vs v = (v \<in> set vs)"

text \<open>Modelled from the spec: \<open>EnumerableSet.add\<close>, absent from the sources; the second component is the boolean it returns.\<close>

definition es_add :: "address list \<Rightarrow> address \<Rightarrow> address list \<times> bool" where
  "es_add vs v = (if \<not> es_contains vs v then (vs @ [v], True) else (vs, False))"

text \<open>Modelled from the spec: the position \<open>EnumerableSet\<close> keeps for a member (its \<open>_indexes\<close> entry minus one), absent from the sources.\<close>

fun es_indexOf :: "address list \<Rightarrow> address \<Rightarrow> nat" where
  "es_indexOf [] v = 0"
| "es_indexOf (x # xs) v = (if x = v then 0 else Suc (es_indexOf xs v))"

text \<open>Modelled from the spec: \<open>EnumerableSet.remove\<close>, absent from the sources; the second component is the boolean it returns.\<close>

definition es_remove :: "address list \<Rightarrow> address \<Rightarrow> address list \<times> bool" where
  "es_remove vs v =
     (if es_contains vs v then
        (let toDeleteIndex = es_indexOf vs v;
             lastIndex = length vs - 1;
             moved = (if toDeleteIndex \<noteq> lastIndex then vs[toDeleteIndex := vs ! lastIndex]
                      else vs)
         in (butlast moved, True))
      else (vs, False))"

text \<open>Modelled from the spec: \<open>EnumerableSet.length\<close>, absent from the sources.\<close>

definition es_length :: "address list \<Rightarrow> nat" where
  "es_length vs = length vs"

text \<open>Modelled from the spec: \<open>EnumerableSet.at\<close>, absent from the sources.\<close>

definition es_at :: "address list \<Rightarrow> nat \<Rightarrow> error + address" where
  "es_at vs i = (if i < length vs then Inr (vs ! i) else Inl OUT_OF_BOUNDS)"

section \<open>ProtocolFeesWithdrawer\<close>

text \<open>
  A call into a contract outside the sources is recorded with the contract called and
  the arguments handed over. The environment says whether that call reverts; so does it
  for the \<open>authenticate\<close> modifier of \<open>SingletonAuthentication\<close> and for the
  vault's \<open>getProtocolFeesCollector\<close>.
\<close>

datatype ext_call =
  CollectorWithdrawCollectedFees address "address list" "uint256 list" address

record withdrawer_env =
  withdrawer_canPerform :: "selector \<Rightarrow> address \<Rightarrow> bool"
  ext_revert :: "ext_call \<Rightarrow> error option"

record withdrawer =
  w_protocolFeesCollector :: address
  denylistedTokens :: "address list"

definition withdrawer_getProtocolFeesCollector :: "withdrawer \<Rightarrow> address" where
  "withdrawer_getProtocolFeesCollector s = w_protocolFeesCollector s"

definition isWithdrawableToken :: "withdrawer \<Rightarrow> address \<Rightarrow> bool" where
  "isWithdrawableToken s token = (\<not> es_contains (denylistedTokens s) token)"

fun isWithdrawableTokens :: "withdrawer \<Rightarrow> address list \<Rightarrow> bool" where
  "isWithdrawableTokens s [] = True"
| "isWithdrawableTokens s (token # tokens) =
     (if \<not> isWithdrawableToken s token then False else isWithdrawableTokens s tokens)"

definition getDenylistedToken :: "withdrawer \<Rightarrow> uint256 \<Rightarrow> error + address" where
  "getDenylistedToken s index = es_at (denylistedTokens s) (unat index)"

definition getDenylistedTokensLength :: "withdrawer \<Rightarrow> uint256" where
  "getDenylistedTokensLength s = of_nat (es_length (denylistedTokens s))"

definition withdrawCollectedFees ::
  "withdrawer_env \<Rightarrow> msg \<Rightarrow> address list \<Rightarrow> uint256 list \<Rightarrow> address \<Rightarrow> withdrawer \<Rightarrow>
     error + withdrawer \<times> ext_call" where
  "withdrawCollectedFees env m tokens amounts recipient s =
     (if \<not> withdrawer_canPerform env WithdrawCollectedFeesSel (sender m)
      then Inl SENDER_NOT_ALLOWED
      else if \<not> isWithdrawableTokens s tokens then Inl WITHDRAW_DENYLISTED_TOKEN
      else
        (let c = CollectorWithdrawCollectedFees (w_protocolFeesCollector s) tokens amounts
                   recipient
         in case ext_revert env c of Some e \<Rightarrow> Inl e | None \<Rightarrow> Inr (s, c)))"

definition internal_denylistToken :: "address \<Rightarrow> withdrawer \<Rightarrow> error + withdrawer" where
  "internal_denylistToken token s =
     (case es_add (denylistedTokens s) token of
        (vs, added) \<Rightarrow>
          if \<not> added then Inl TOKEN_ALREADY_DENYLISTED
          else Inr (s\<lparr>denylistedTokens := vs\<rparr>))"

definition denylistToken ::
  "withdrawer_env \<Rightarrow> msg \<Rightarrow> address \<Rightarrow> withdrawer \<Rightarrow> error + withdrawer" where
  "denylistToken env m token s =
     (if \<not> withdrawer_canPerform env DenylistTokenSel (sender m) then Inl SENDER_NOT_ALLOWED
      else internal_denylistToken token s)"

definition allowlistToken ::
  "withdrawer_env \<Rightarrow> msg \<Rightarrow> address \<Rightarrow> withdrawer \<Rightarrow> error + withdrawer" where
  "allowlistToken env m token s =
     (if \<not> withdrawer_canPerform env AllowlistTokenSel (sender m) then Inl SENDER_NOT_ALLOWED
      else
        (case es_remove (denylistedTokens s) token of
           (vs, removed) \<Rightarrow>
             if \<not> removed then Inl TOKEN_NOT_DENYLISTED
             else Inr (s\<lparr>denylistedTokens := vs\<rparr>)))"

text \<open>
  The constructor reads the collector from the vault (\<open>vault_collector\<close> is what
  \<open>vault.getProtocolFeesCollector()\<close> returns) and denylists the initial tokens one
  by one, without authentication; the first token that is already denylisted reverts
  the deployment.
\<close>

fun denylist_initial :: "address list \<Rightarrow> withdrawer \<Rightarrow> error + withdrawer" where
  "denylist_initial [] s = Inr s"
| "denylist_initial (token # tokens) s =
     (case internal_denylistToken token s of
        Inl e \<Rightarrow> Inl e
      | Inr s' \<Rightarrow> denylist_initial tokens s')"

definition withdrawer_constructor :: "address \<Rightarrow> address list \<Rightarrow> error + withdrawer" where
  "withdrawer_constructor vault_collector initialDeniedTokens =
     denylist_initial initialDeniedTokens
       \<lparr>w_protocolFeesCollector = vault_collector, denylistedTokens = []\<rparr>"

datatype withdrawer_call =
    WithdrawCollectedFees "address list" "uint256 list" address
  | DenylistToken address
  | AllowlistToken address

fun withdrawer_step ::
  "withdrawer_env \<Rightarrow> msg \<Rightarrow> withdrawer_call \<Rightarrow> withdrawer \<Rightarrow> error + withdrawer" where
  "withdrawer_step env m (WithdrawCollectedFees tokens amounts recipient) s =
     map_sum id fst (withdrawCollectedFees env m tokens amounts recipient s)"
| "withdrawer_step env m (DenylistToken token) s = denylistToken env m token s"
| "withdrawer_step env m (AllowlistToken token) s = allowlistToken env m token s"

fun withdrawer_exec ::
  "(withdrawer_env \<times> msg \<times> withdrawer_call) list \<Rightarrow> withdrawer \<Rightarrow> withdrawer" where
  "withdrawer_exec [] s = s"
| "withdrawer_exec ((env, m, c) # cs) s =
     withdrawer_exec cs (transact (withdrawer_step env m c s) s)"

section \<open>Bytecode linking\<close>

text \<open>
  The TypeScript helper \<open>linkBytecode\<close>. A JavaScript string is the list of its
  UTF-16 code units; \<open>js\<close> writes one from ASCII text. \<open>substr\<close> with two
  non-negative arguments (\<open>substr2\<close>) is \<open>take\<close> after \<open>drop\<close>, and with one
  argument (\<open>substr1\<close>) \<open>drop\<close>. The link references are the entries of the
  artifact's object in the order \<open>Object.entries\<close> gives them: per source file, per
  library name, the fixups.
\<close>

type_synonym js_string = "16 word list"

definition js :: "string \<Rightarrow> js_string" where
  "js s = map (\<lambda>c. of_nat (of_char c)) s"

datatype js_error = TypeError

text \<open>
  \<open>libraries\<close> is a plain object whose own properties are the supplied addresses,
  strings by its type. Reading \<open>libraries[libName]\<close> gives the own property when
  there is one; otherwise it goes up to \<open>Object.prototype\<close>, where the names below are
  found and hold a function or an object, no string; for every other name it is
  \<open>undefined\<close>.
\<close>

datatype js_value = Undefined | JSString js_string | NotAString

definition object_prototype_keys :: "js_string list" where
  "object_prototype_keys =
     map js [''constructor'', ''__defineGetter__'', ''__defineSetter__'', ''hasOwnProperty'',
       ''__lookupGetter__'', ''__lookupSetter__'', ''isPrototypeOf'', ''propertyIsEnumerable'',
       ''toString'', ''valueOf'', ''__proto__'', ''toLocaleString'']"

definition libraries_lookup :: "(js_string \<rightharpoonup> js_string) \<Rightarrow> js_string \<Rightarrow> js_value" where
  "libraries_lookup libraries libName =
     (case libraries libName of
        Some address \<Rightarrow> JSString address
      | None \<Rightarrow> if libName \<in> set object_prototype_keys then NotAString else Undefined)"

record fixup =
  fixup_start :: nat
  fixup_length :: nat

record artifact =
  abi :: js_string
  bytecode_object :: js_string
  linkReferences :: "(js_string \<times> (js_string \<times> fixup list) list) list"

definition substr2 :: "js_string \<Rightarrow> nat \<Rightarrow> nat \<Rightarrow> js_string" where
  "substr2 s from len = take len (drop from s)"

definition substr1 :: "js_string \<Rightarrow> nat \<Rightarrow> js_string" where
  "substr1 s from = drop from s"

text \<open>
  \<open>toLowerCase\<close> is the engine's. On a string of ASCII characters it turns the
  letters A to Z into a to z and keeps the rest. On any other string it is the Unicode
  case conversion, which is not part of the sources and is a parameter here; it works on
  the whole string and need not keep its length (U+0130 becomes two code units).
\<close>

definition is_ascii :: "16 word \<Rightarrow> bool" where
  "is_ascii c = (c < 128)"

definition ascii_toLowerCase :: "16 word \<Rightarrow> 16 word" where
  "ascii_toLowerCase c = (if 65 \<le> c \<and> c \<le> 90 then c + 32 else c)"

definition toLowerCase :: "(js_string \<Rightarrow> js_string) \<Rightarrow> js_string \<Rightarrow> js_string" where
  "toLowerCase unicode_toLowerCase s =
     (if list_all is_ascii s then map ascii_toLowerCase s else unicode_toLowerCase s)"

definition apply_fixup :: "js_string \<Rightarrow> js_string \<Rightarrow> fixup \<Rightarrow> js_string" where
  "apply_fixup bytecode address f =
     substr2 bytecode 0 (fixup_start f * 2) @ substr1 address 2 @
     substr1 bytecode ((fixup_start f + fixup_length f) * 2)"

text \<open>
  The innermost loop. \<open>address\<close> is never \<open>undefined\<close> here; when it is no string,
  \<open>address.substr\<close> is no function and the first fixup throws.
\<close>

fun link_fixups :: "js_string \<Rightarrow> js_value \<Rightarrow> fixup list \<Rightarrow> js_error + js_string" where
  "link_fixups bytecode address [] = Inr bytecode"
| "link_fixups bytecode address (f # fixups) =
     (case address of
        JSString a \<Rightarrow> link_fixups (apply_fixup bytecode a f) address fixups
      | _ \<Rightarrow> Inl TypeError)"

fun link_file ::
  "(js_string \<rightharpoonup> js_string) \<Rightarrow> js_string \<Rightarrow> (js_string \<times> fixup list) list \<Rightarrow>
     js_error + js_string" where
  "link_file libraries bytecode [] = Inr bytecode"
| "link_file libraries bytecode ((libName, fixups) # fileReferences) =
     (case libraries_lookup libraries libName of
        Undefined \<Rightarrow> link_file libraries bytecode fileReferences
      | address \<Rightarrow>
          (case link_fixups bytecode address fixups of
             Inl e \<Rightarrow> Inl e
           | Inr linked \<Rightarrow> link_file libraries linked fileReferences))"

fun link_files ::
  "(js_string \<rightharpoonup> js_string) \<Rightarrow> js_string \<Rightarrow>
     (js_string \<times> (js_string \<times> fixup list) list) list \<Rightarrow> js_error + js_string" where
  "link_files libraries bytecode [] = Inr bytecode"
| "link_files libraries bytecode ((file, fileReferences) # refs) =
     (case link_file libraries bytecode fileReferences of
        Inl e \<Rightarrow> Inl e
      | Inr linked \<Rightarrow> link_files libraries linked refs)"

text \<open>
  The artifact is assigned its new bytecode only after the loops, so an exception
  leaves it as it was.
\<close>

definition linkBytecode ::
  "(js_string \<Rightarrow> js_string) \<Rightarrow> artifact \<Rightarrow> (js_string \<rightharpoonup> js_string) \<Rightarrow> js_error + artifact" where
  "linkBytecode unicode_toLowerCase a libraries =
     (case link_files libraries (bytecode_object a) (linkReferences a) of
        Inl e \<Rightarrow> Inl e
      | Inr linked \<Rightarrow> Inr (a\<lparr>bytecode_object := toLowerCase unicode_toLowerCase linked\<rparr>))"

text \<open>
  The claim's wording, to compare the loops with: the fixups to apply are those of the
  references whose library has an address, each paired with that address, in order; one
  fixup replaces the characters from \<open>2 * start\<close> up to \<open>2 * (start + length)\<close>
  by the address without its first two characters.
\<close>

definition resolved_fixups ::
  "(js_string \<rightharpoonup> js_string) \<Rightarrow> (js_string \<times> (js_string \<times> fixup list) list) list \<Rightarrow>
     (js_string \<times> fixup) list" where
  "resolved_fixups libraries refs =
     concat (map (\<lambda>(file, fileReferences).
       concat (map (\<lambda>(libName, fixups).
         (case libraries libName of
            None \<Rightarrow> []
          | Some address \<Rightarrow> map (\<lambda>f. (address, f)) fixups)) fileReferences)) refs)"

definition replace_range :: "js_string \<Rightarrow> nat \<Rightarrow> nat \<Rightarrow> js_string \<Rightarrow> js_string" where
  "replace_range s i j r = take i s @ r @ drop j s"

definition linked_spec ::
  "js_string \<Rightarrow> (js_string \<times> fixup) list \<Rightarrow> js_string" where
  "linked_spec bytecode afs =
     foldl (\<lambda>b (address, f).
        replace_range b (2 * fixup_start f) (2 * (fixup_start f + fixup_length f))
          (drop 2 address)) bytecode afs"

definition fixup_in_bounds :: "nat \<Rightarrow> fixup \<Rightarrow> bool" where
  "fixup_in_bounds n f = (2 * (fixup_start f + fixup_length f) \<le> n)"

text \<open>
  A reference with at least one fixup whose library name has no address of its own
  but is found on \<open>Object.prototype\<close>.
\<close>

definition inherited_name_used ::
  "(js_string \<rightharpoonup> js_string) \<Rightarrow> (js_string \<times> (js_string \<times> fixup list) list) list \<Rightarrow> bool" where
  "inherited_name_used libraries refs =
     list_ex (\<lambda>(file, fileReferences).
       list_ex (\<lambda>(libName, fixups).
         libraries_lookup libraries libName = NotAString \<and> fixups \<noteq> []) fileReferences) refs"

text \<open>The same two notions for the references of one source file.\<close>

definition file_resolved ::
  "(js_string \<rightharpoonup> js_string) \<Rightarrow> (js_string \<times> fixup list) list \<Rightarrow> (js_string \<times> fixup) list" where
  "file_resolved libraries fileReferences =
     concat (map (\<lambda>(libName, fixups).
         (case libraries libName of
            None \<Rightarrow> []
          | Some address \<Rightarrow> map (\<lambda>f. (address, f)) fixups)) fileReferences)"

definition file_inherited ::
  "(js_string \<rightharpoonup> js_string) \<Rightarrow> (js_string \<times> fixup list) list \<Rightarrow> bool" where
  "file_inherited libraries fileReferences =
     list_ex (\<lambda>(libName, fixups).
         libraries_lookup libraries libName = NotAString \<and> fixups \<noteq> []) fileReferences"

section \<open>Compiler configuration overrides\<close>

text \<open>
  \<open>String.prototype.replace\<close> with a string pattern replaces the first occurrence
  of the pattern, if there is one. The replacement is always the empty string here, so
  the \<open>$\<close> patterns of a replacement string do not arise.
\<close>

fun js_replace :: "string \<Rightarrow> string \<Rightarrow> string \<Rightarrow> string" where
  "js_replace [] pat rep = (if pat = [] then rep else [])"
| "js_replace (c # cs) pat rep =
     (if prefix pat (c # cs) then rep @ drop (length pat) (c # cs)
      else c # js_replace cs pat rep)"

record contract_setting =
  cs_version :: string
  cs_runs :: nat

record optimizer_config =
  enabled :: bool
  runs :: "nat option"

record solc_settings =
  optimizer :: optimizer_config

record solc_config =
  version :: string
  settings :: solc_settings

definition contractSettings :: "(string \<times> contract_setting) list" where
  "contractSettings =
     [(''@koyofinance/exchange-vault/contracts/Vault.sol'',
         \<lparr>cs_version = ''0.7.1'', cs_runs = 1500\<rparr>),
      (''@koyofinance/exchange-vault-pool-oracle/contracts/oracle/OracleWeightedPoolFactory.sol'',
         \<lparr>cs_version = ''0.7.1'', cs_runs = 200\<rparr>)]"

definition compilers :: "solc_config list" where
  "compilers =
     [\<lparr>version = ''0.7.1'',
       settings = \<lparr>optimizer = \<lparr>enabled = True, runs = Some 9999\<rparr>\<rparr>\<rparr>]"

text \<open>
  The loop over \<open>Object.keys(contractSettings)\<close>, with \<open>contractSettings[contract]\<close>
  the value stored under the key; an assignment to a key that is already there
  overwrites it.
\<close>

fun overrides_loop ::
  "string \<Rightarrow> (string \<times> contract_setting) list \<Rightarrow> (string \<rightharpoonup> solc_config) \<Rightarrow>
     (string \<rightharpoonup> solc_config)" where
  "overrides_loop packageName [] acc = acc"
| "overrides_loop packageName ((contract, setting) # rest) acc =
     overrides_loop packageName rest
       (acc(js_replace contract (packageName @ ''/'') [] \<mapsto>
          \<lparr>version = cs_version setting,
           settings = \<lparr>optimizer = \<lparr>enabled = True, runs = Some (cs_runs setting)\<rparr>\<rparr>\<rparr>))"

definition overrides :: "string \<Rightarrow> (string \<rightharpoonup> solc_config)" where
  "overrides packageName = overrides_loop packageName contractSettings Map.empty"

section \<open>Predicates and example deployments used in the statements\<close>

text \<open>The swap fee read from the slot lies within the two bounds of the contract.\<close>

definition fee_in_range :: "'p pool \<Rightarrow> bool" where
  "fee_in_range s =
     (MIN_SWAP_FEE \<le> getSwapFeePercentage s \<and> getSwapFeePercentage s \<le> MAX_SWAP_FEE)"

text \<open>
  A concrete environment for the pool: address 1 may call every permissioned function,
  the pool is never paused, and the vault registers the pool under id 7 and names
  address 9 as its fees collector. \<open>example_pool\<close> is the pool its constructor
  then builds for a fee of 0.3%.
\<close>

definition example_pool_env :: "unit pool_env" where
  "example_pool_env =
     \<lparr>getMaxTokens = 8,
      ensureArrayIsSorted = (\<lambda>tokens. True),
      pool_canPerform = (\<lambda>sel a. a = 1),
      initPausable = (\<lambda>pauseWindowDuration bufferPeriodDuration now. Inr ()),
      notPaused = (\<lambda>now p. True),
      setPaused = (\<lambda>now paused p. Inr p),
      registerPool = (\<lambda>sp. Inr 7),
      registerTokens = (\<lambda>pid tokens assetManagers. None),
      vault_getProtocolFeesCollector = 9,
      setConfig = (\<lambda>pid token poolConfig. None)\<rparr>"

definition example_pool :: "unit pool" where
  "example_pool =
     \<lparr>miscData = push_bit 192 3000000000000000, vault = 5, poolId = 7,
      protocolFeesCollector = 9, pausable = ()\<rparr>"

text \<open>
  A concrete environment for the withdrawer: address 1 is the only authorised caller
  and the collector accepts every withdrawal.
\<close>

definition example_withdrawer_env :: withdrawer_env where
  "example_withdrawer_env =
     \<lparr>withdrawer_canPerform = (\<lambda>sel a. a = 1), ext_revert = (\<lambda>c. None)\<rparr>"

text \<open>The withdrawer deployed with the tokens 3 and 4 denylisted.\<close>

definition example_withdrawer :: withdrawer where
  "example_withdrawer = \<lparr>w_protocolFeesCollector = 9, denylistedTokens = [3, 4]\<rparr>"

text \<open>All fixups and all library names an artifact's link references mention.\<close>

definition all_fixups :: "(js_string \<times> (js_string \<times> fixup list) list) list \<Rightarrow> fixup list" where
  "all_fixups refs = concat (map (\<lambda>(file, fileReferences). concat (map snd fileReferences)) refs)"

definition all_libNames :: "(js_string \<times> (js_string \<times> fixup list) list) list \<Rightarrow> js_string list" where
  "all_libNames refs = concat (map (\<lambda>(file, fileReferences). map fst fileReferences) refs)"

text \<open>
  An artifact with one 20-byte placeholder at byte 1 for \<open>MathLib\<close> and a reference
  to \<open>OtherLib\<close>, for which no address is supplied; an artifact whose bytecode is
  shorter than the placeholder its link reference names; an artifact that refers to a
  library called \<open>toString\<close>; a library map; and a library map whose address has the
  42 characters \<open>0x\<close>, U+0130 and 39 hex digits.
\<close>

definition example_artifact :: artifact where
  "example_artifact =
     \<lparr>abi = js ''[]'',
      bytecode_object = js ''60__$0123456789abcdef0123456789abcdef01$__5B'',
      linkReferences =
        [(js ''contracts/Pool.sol'',
            [(js ''MathLib'', [\<lparr>fixup_start = 1, fixup_length = 20\<rparr>]),
             (js ''OtherLib'', [\<lparr>fixup_start = 0, fixup_length = 20\<rparr>])])]\<rparr>"

definition example_artifact_short :: artifact where
  "example_artifact_short =
     \<lparr>abi = js ''[]'',
      bytecode_object = js ''60'',
      linkReferences =
        [(js ''contracts/Pool.sol'',
            [(js ''MathLib'', [\<lparr>fixup_start = 0, fixup_length = 20\<rparr>])])]\<rparr>"

definition example_artifact_toString :: artifact where
  "example_artifact_toString =
     \<lparr>abi = js ''[]'',
      bytecode_object = js ''60__$0123456789abcdef0123456789abcdef01$__5B'',
      linkReferences =
        [(js ''contracts/Pool.sol'',
            [(js ''toString'', [\<lparr>fixup_start = 1, fixup_length = 20\<rparr>])])]\<rparr>"

definition example_libraries :: "js_string \<rightharpoonup> js_string" where
  "example_libraries = [js ''MathLib'' \<mapsto> js ''0xAbCdEf0123456789aBcDeF0123456789abcdef01'']"

definition example_libraries_dotted :: "js_string \<rightharpoonup> js_string" where
  "example_libraries_dotted =
     [js ''MathLib'' \<mapsto> js ''0x'' @ [304] @ js ''bCdEf0123456789aBcDeF0123456789abcdef01'']"

text \<open>
  A case conversion that agrees with the engine's on the strings whose only character
  outside ASCII is U+0130: that one becomes \<open>i\<close> followed by U+0307.
\<close>

definition example_unicode_toLowerCase :: "js_string \<Rightarrow> js_string" where
  "example_unicode_toLowerCase s =
     concat (map (\<lambda>c. if c = 304 then [105, 775] else [ascii_toLowerCase c]) s)"

text \<open>
  A withdrawer environment in which address 1 may call \<open>denylistToken\<close> and nothing
  else.
\<close>

definition example_denylister_env :: withdrawer_env where
  "example_denylister_env =
     \<lparr>withdrawer_canPerform = (\<lambda>sel a. sel = DenylistTokenSel \<and> a = 1),
      ext_revert = (\<lambda>c. None)\<rparr>"

section \<open>Properties of the word codec\<close>

lemma one_shl_minus_one: "push_bit n (1 :: 'a::len word) - 1 = mask n"
  by (simp add: mask_eq_exp_minus_1)

lemma decodeUint_bits: "decodeUint w off len = take_bit len (drop_bit off w)"
  by (simp only: decodeUint_def one_shl_minus_one take_bit_eq_mask)

lemma bit_decodeUint: "bit (decodeUint w off len) n \<longleftrightarrow> n < len \<and> bit w (off + n)"
  by (simp add: decodeUint_bits bit_simps)

lemma bit_insertUint:
  "bit (insertUint w v off len) n \<longleftrightarrow>
     (bit w n \<and> \<not> (off \<le> n \<and> n < off + len)) \<or> (off \<le> n \<and> n < 256 \<and> bit v (n - off))"
  unfolding insertUint_def Let_def one_shl_minus_one
  by (auto simp add: bit_simps dest: bit_imp_le_length)

lemma bit_insertInt:
  "bit (insertInt w v off len) n \<longleftrightarrow>
     (bit w n \<and> \<not> (off \<le> n \<and> n < off + len)) \<or> (off \<le> n \<and> n < off + len \<and> n < 256 \<and> bit v (n - off))"
  unfolding insertInt_def Let_def one_shl_minus_one
  by (auto simp add: bit_simps dest: bit_imp_le_length)

lemma bit_insertBool:
  "bit (insertBool w b off) n \<longleftrightarrow> (bit w n \<and> n \<noteq> off) \<or> (n = off \<and> n < 256 \<and> b)"
  unfolding insertBool_def Let_def
  by (auto simp add: bit_simps dest: bit_imp_le_length)

lemma decodeBool_bit: "decodeBool w off \<longleftrightarrow> bit w off"
proof -
  have "drop_bit off w AND 1 = 1 \<longleftrightarrow> bit (drop_bit off w) 0"
    by (simp add: and_one_eq bit_0 mod_2_eq_odd)
  then show ?thesis by (simp add: decodeBool_def bit_drop_bit_eq)
qed

lemma sint_range_signed_take_bit:
  fixes v :: "'a::len word"
  assumes "- (2 ^ n) \<le> sint v" "sint v < 2 ^ n"
  shows "signed_take_bit n v = v"
proof (rule bit_word_eqI)
  fix i assume i: "i < LENGTH('a)"
  from assms have "signed_take_bit n (sint v) = sint v"
    by (simp add: signed_take_bit_int_eq_self_iff)
  then have "bit (sint v) i = bit (signed_take_bit n (sint v)) i" by simp
  also have "\<dots> = bit (sint v) (min n i)" by (simp add: bit_signed_take_bit_iff)
  finally have e: "bit (sint v) i = bit (sint v) (min n i)" .
  have "\<not> LENGTH('a) \<le> min n i" using i by simp
  then have "bit (sint v) (min n i) = bit v (min n i)"
    by (simp only: bit_sint_iff simp_thms)
  moreover have "\<not> LENGTH('a) \<le> i" using i by simp
  then have "bit (sint v) i = bit v i"
    by (simp only: bit_sint_iff simp_thms)
  ultimately have "bit v i = bit v (min n i)" using e by simp
  then show "bit (signed_take_bit n v) i = bit v i"
    using i by (simp add: bit_signed_take_bit_iff)
qed

lemma uint_lt_of_take_bit:
  fixes x :: "'a::len word"
  assumes "take_bit len x = x"
  shows "uint x < 2 ^ len"
proof -
  have "uint x = take_bit len (uint x)"
    by (metis assms unsigned_take_bit_eq)
  then show ?thesis by (metis take_bit_int_less_exp)
qed

lemma sint_small:
  fixes x :: "'a::len word"
  assumes "take_bit len x = x" "len < LENGTH('a)"
  shows "sint x = uint x"
proof -
  have "uint x < 2 ^ len"
    using assms(1) by (rule uint_lt_of_take_bit)
  also have "(2::int) ^ len \<le> 2 ^ (LENGTH('a) - Suc 0)"
    using assms(2) by (intro power_increasing) auto
  finally have "signed_take_bit (LENGTH('a) - Suc 0) (uint x) = uint x"
    by (simp add: signed_take_bit_int_eq_self_iff order_trans [of _ 0])
  then show ?thesis by (simp add: sint_uint)
qed

lemma top_bit_iff:
  fixes x :: "'a::len word"
  assumes "take_bit len x = x" "0 < len"
  shows "take_bit (len - 1) x = x \<longleftrightarrow> \<not> bit x (len - 1)"
proof
  assume "take_bit (len - 1) x = x"
  then have "bit x (len - 1) = bit (take_bit (len - 1) x) (len - 1)" by simp
  then show "\<not> bit x (len - 1)" by (simp add: bit_take_bit_iff)
next
  assume nb: "\<not> bit x (len - 1)"
  show "take_bit (len - 1) x = x"
  proof (rule bit_word_eqI)
    fix n assume "n < LENGTH('a)"
    have "bit x n \<Longrightarrow> n < len - 1"
    proof -
      assume bx: "bit x n"
      then have "bit (take_bit len x) n" using assms(1) by simp
      then have "n < len" by (simp add: bit_take_bit_iff)
      moreover have "n \<noteq> len - 1" using bx nb by auto
      ultimately show "n < len - 1" by simp
    qed
    then show "bit (take_bit (len - 1) x) n = bit x n"
      by (auto simp add: bit_take_bit_iff)
  qed
qed

lemma sgt_maxInt:
  fixes x :: "'a::len word"
  assumes "take_bit len x = x" "0 < len" "len < LENGTH('a)"
  shows "sint (mask (len - 1) :: 'a word) < sint x \<longleftrightarrow> bit x (len - 1)"
proof -
  have m: "take_bit (len - 1) (mask (len - 1) :: 'a word) = mask (len - 1)"
    by (simp add: take_bit_eq_mask)
  have sm: "sint (mask (len - 1) :: 'a word) = uint (mask (len - 1) :: 'a word)"
    using m assms by (intro sint_small [of "len - 1"]) auto
  have sx: "sint x = uint x" using assms by (intro sint_small [of len]) auto
  have um: "uint (mask (len - 1) :: 'a word) = 2 ^ (len - 1) - 1"
  proof -
    have "min LENGTH('a) (len - 1) = len - 1" using assms by simp
    then have "uint (mask (len - 1) :: 'a word) = mask (len - 1)"
      by (simp only: uint_mask_eq)
    then show ?thesis by (simp only: mask_eq_exp_minus_1)
  qed
  have "sint (mask (len - 1) :: 'a word) < sint x \<longleftrightarrow> \<not> uint x < 2 ^ (len - 1)"
    unfolding sm sx um by linarith
  also have "\<dots> \<longleftrightarrow> \<not> take_bit (len - 1) x = x"
    by (simp only: take_bit_eq_mask mask_eq_iff)
  also have "\<dots> \<longleftrightarrow> bit x (len - 1)"
    using top_bit_iff [OF assms(1,2)] by simp
  finally show ?thesis .
qed

lemma sext_field:
  fixes y :: "'a::len word"
  assumes "0 < len" "len < LENGTH('a)"
  shows "(if bit (take_bit len y) (len - 1) then take_bit len y OR NOT (mask len) else take_bit len y)
         = signed_take_bit (len - 1) y"
proof (rule bit_word_eqI)
  fix n assume n: "n < LENGTH('a)"
  have b: "bit (take_bit len y) (len - 1) = bit y (len - 1)"
    using assms by (simp add: bit_take_bit_iff)
  show "bit (if bit (take_bit len y) (len - 1) then take_bit len y OR NOT (mask len) else take_bit len y) n
        = bit (signed_take_bit (len - 1) y) n"
  proof (cases "n < len")
    case True
    then have "min (len - 1) n = (if n = len - 1 then len - 1 else n)" by auto
    with True n assms show ?thesis
      by (simp add: b bit_or_iff bit_not_iff bit_mask_iff bit_take_bit_iff bit_signed_take_bit_iff)
  next
    case False
    then have "min (len - 1) n = len - 1" using assms by auto
    with False n assms show ?thesis
      by (simp add: b bit_or_iff bit_not_iff bit_mask_iff bit_take_bit_iff bit_signed_take_bit_iff)
  qed
qed

lemma decodeInt_bits:
  assumes "0 < len" "len < 256"
  shows "decodeInt w off len = signed_take_bit (len - 1) (drop_bit off w)"
proof -
  define y where "y = drop_bit off w"
  have tx: "take_bit len (take_bit len y) = take_bit len y" by simp
  have cmp: "sint (mask (len - 1) :: 256 word) < sint (take_bit len y) \<longleftrightarrow> bit (take_bit len y) (len - 1)"
    using tx assms by (intro sgt_maxInt) auto
  have "decodeInt w off len = (if sint (mask (len - 1) :: 256 word) < sint (take_bit len y)
          then take_bit len y OR NOT (mask len) else take_bit len y)"
    unfolding decodeInt_def Let_def one_shl_minus_one y_def take_bit_eq_mask ..
  also have "\<dots> = (if bit (take_bit len y) (len - 1) then take_bit len y OR NOT (mask len) else take_bit len y)"
    by (simp only: cmp)
  also have "\<dots> = signed_take_bit (len - 1) y"
    using assms by (intro sext_field) auto
  finally show ?thesis by (simp only: y_def)
qed


lemma bit_decodeInt:
  assumes "0 < len" "len < 256"
  shows "bit (decodeInt w off len) n \<longleftrightarrow> n < 256 \<and> bit w (off + min (len - 1) n)"
  by (simp add: decodeInt_bits [OF assms] bit_signed_take_bit_iff bit_drop_bit_eq)

lemma fits_uint_bit:
  assumes "fits_uint len v" "bit v n"
  shows "n < len"
proof -
  have "uint v < 2 ^ len"
  proof -
    have "uint v = int (unat v)" by (rule uint_nat)
    also have "\<dots> < int (2 ^ len)"
      using assms(1) unfolding fits_uint_def by (simp only: of_nat_less_iff)
    also have "int (2 ^ len) = 2 ^ len" by simp
    finally show ?thesis .
  qed
  then have "take_bit len v = v"
    by (simp only: take_bit_eq_mask mask_eq_iff)
  then have "bit (take_bit len v) n" using assms(2) by simp
  then show ?thesis by (simp add: bit_take_bit_iff)
qed

lemma decodeUint_cong:
  assumes "\<And>n. off \<le> n \<Longrightarrow> n < off + len \<Longrightarrow> bit w n = bit w' n"
  shows "decodeUint w off len = decodeUint w' off len"
proof (rule bit_word_eqI)
  fix n assume "n < LENGTH(256)"
  show "bit (decodeUint w off len) n = bit (decodeUint w' off len) n"
  proof (cases "n < len")
    case True
    then have "bit w (off + n) = bit w' (off + n)" by (intro assms) simp_all
    then show ?thesis by (simp add: bit_decodeUint)
  next
    case False
    then show ?thesis by (simp add: bit_decodeUint)
  qed
qed

lemma decodeInt_cong:
  assumes "0 < len" "len < 256"
    and "\<And>n. off \<le> n \<Longrightarrow> n < off + len \<Longrightarrow> bit w n = bit w' n"
  shows "decodeInt w off len = decodeInt w' off len"
proof (rule bit_word_eqI)
  fix n assume "n < LENGTH(256)"
  have "off + min (len - 1) n < off + len" using assms(1) by arith
  then have "bit w (off + min (len - 1) n) = bit w' (off + min (len - 1) n)"
    by (intro assms(3)) simp_all
  then show "bit (decodeInt w off len) n = bit (decodeInt w' off len) n"
    by (simp add: bit_decodeInt [OF assms(1,2)])
qed

lemma decodeBool_cong:
  assumes "bit w off = bit w' off"
  shows "decodeBool w off = decodeBool w' off"
  by (simp add: decodeBool_bit assms)

lemma insertUint_outside:
  assumes "fits_uint len v" "\<not> (off \<le> n \<and> n < off + len)"
  shows "bit (insertUint w v off len) n = bit w n"
  using assms fits_uint_bit [OF assms(1), of "n - off"]
  by (auto simp add: bit_insertUint)

lemma insertInt_outside:
  assumes "\<not> (off \<le> n \<and> n < off + len)"
  shows "bit (insertInt w v off len) n = bit w n"
  using assms by (auto simp add: bit_insertInt)

lemma insertBool_outside:
  assumes "n \<noteq> off"
  shows "bit (insertBool w b off) n = bit w n"
  using assms by (auto simp add: bit_insertBool)

lemma decodeUint_insertUint:
  assumes "fits_uint len v" "off + len \<le> 256"
  shows "decodeUint (insertUint w v off len) off len = v"
proof (rule bit_word_eqI)
  fix n assume "n < LENGTH(256)"
  show "bit (decodeUint (insertUint w v off len) off len) n = bit v n"
    using assms(2) fits_uint_bit [OF assms(1), of n]
    by (auto simp add: bit_decodeUint bit_insertUint)
qed

lemma decodeInt_insertInt:
  assumes "fits_int len v" "0 < len" "off + len \<le> 256" "len < 256"
  shows "decodeInt (insertInt w v off len) off len = v"
proof -
  have "signed_take_bit (len - 1) v = v"
    using assms(1) unfolding fits_int_def by (intro sint_range_signed_take_bit) auto
  moreover have "decodeInt (insertInt w v off len) off len = signed_take_bit (len - 1) v"
  proof (rule bit_word_eqI)
    fix n assume n: "n < LENGTH(256)"
    have "min (len - 1) n < len" using assms(2) by arith
    then show "bit (decodeInt (insertInt w v off len) off len) n = bit (signed_take_bit (len - 1) v) n"
      using n assms(2,3,4)
      by (simp add: bit_decodeInt bit_insertInt bit_signed_take_bit_iff)
  qed
  ultimately show ?thesis by simp
qed

lemma decodeBool_insertBool:
  assumes "off < 256"
  shows "decodeBool (insertBool w b off) off = b"
  using assms by (simp add: decodeBool_bit bit_insertBool)

section \<open>Properties of the oracle misc data\<close>

lemmas misc_offsets = LOG_INVARIANT_OFFSET_def LOG_TOTAL_SUPPLY_OFFSET_def
  ORACLE_SAMPLE_CREATION_TIMESTAMP_OFFSET_def ORACLE_INDEX_OFFSET_def ORACLE_ENABLED_OFFSET_def

lemma logInvariant_cong:
  "(\<And>n. n < 22 \<Longrightarrow> bit d n = bit d' n) \<Longrightarrow> logInvariant d = logInvariant d'"
  unfolding logInvariant_def misc_offsets by (rule decodeInt_cong) simp_all

lemma logTotalSupply_cong:
  "(\<And>n. 22 \<le> n \<Longrightarrow> n < 44 \<Longrightarrow> bit d n = bit d' n) \<Longrightarrow> logTotalSupply d = logTotalSupply d'"
  unfolding logTotalSupply_def misc_offsets by (rule decodeInt_cong) simp_all

lemma oracleSampleCreationTimestamp_cong:
  "(\<And>n. 44 \<le> n \<Longrightarrow> n < 75 \<Longrightarrow> bit d n = bit d' n) \<Longrightarrow>
   oracleSampleCreationTimestamp d = oracleSampleCreationTimestamp d'"
  unfolding oracleSampleCreationTimestamp_def misc_offsets by (rule decodeUint_cong) simp_all

lemma oracleIndex_cong:
  "(\<And>n. 75 \<le> n \<Longrightarrow> n < 85 \<Longrightarrow> bit d n = bit d' n) \<Longrightarrow> oracleIndex d = oracleIndex d'"
  unfolding oracleIndex_def misc_offsets by (rule decodeUint_cong) simp_all

lemma oracleEnabled_cong:
  "bit d 85 = bit d' 85 \<Longrightarrow> oracleEnabled d = oracleEnabled d'"
  unfolding oracleEnabled_def misc_offsets by (rule decodeBool_cong)

lemma setLogInvariant_outside:
  "\<not> n < 22 \<Longrightarrow> bit (setLogInvariant d v) n = bit d n"
  unfolding setLogInvariant_def misc_offsets by (rule insertInt_outside) simp

lemma setLogTotalSupply_outside:
  "\<not> (22 \<le> n \<and> n < 44) \<Longrightarrow> bit (setLogTotalSupply d v) n = bit d n"
  unfolding setLogTotalSupply_def misc_offsets by (rule insertInt_outside) simp

lemma setOracleSampleCreationTimestamp_outside:
  "fits_uint 31 v \<Longrightarrow> \<not> (44 \<le> n \<and> n < 75) \<Longrightarrow>
   bit (setOracleSampleCreationTimestamp d v) n = bit d n"
  unfolding setOracleSampleCreationTimestamp_def misc_offsets by (rule insertUint_outside) simp_all

lemma setOracleIndex_outside:
  "fits_uint 10 v \<Longrightarrow> \<not> (75 \<le> n \<and> n < 85) \<Longrightarrow> bit (setOracleIndex d v) n = bit d n"
  unfolding setOracleIndex_def misc_offsets by (rule insertUint_outside) simp_all

lemma setOracleEnabled_outside:
  "n \<noteq> 85 \<Longrightarrow> bit (setOracleEnabled d v) n = bit d n"
  unfolding setOracleEnabled_def misc_offsets by (rule insertBool_outside)

text \<open>
  Claim C3. Round trip of the misc-data codec: for every word \<open>data\<close> and every
  value in the declared range of a field (22-bit signed for the two logarithms, 31-bit
  unsigned for the sample creation timestamp, 10-bit unsigned for the oracle index, a
  boolean for the enabled flag), the setter followed by the getter of that field returns
  exactly the value.
\<close>

theorem misc_data_round_trip:
  "(fits_int 22 li \<longrightarrow> logInvariant (setLogInvariant data li) = li) \<and>
   (fits_int 22 ls \<longrightarrow> logTotalSupply (setLogTotalSupply data ls) = ls) \<and>
   (fits_uint 31 ts \<longrightarrow>
      oracleSampleCreationTimestamp (setOracleSampleCreationTimestamp data ts) = ts) \<and>
   (fits_uint 10 ix \<longrightarrow> oracleIndex (setOracleIndex data ix) = ix) \<and>
   oracleEnabled (setOracleEnabled data en) = en"
proof (intro conjI impI)
  assume "fits_int 22 li"
  then show "logInvariant (setLogInvariant data li) = li"
    unfolding logInvariant_def setLogInvariant_def misc_offsets
    by (rule decodeInt_insertInt) simp_all
next
  assume "fits_int 22 ls"
  then show "logTotalSupply (setLogTotalSupply data ls) = ls"
    unfolding logTotalSupply_def setLogTotalSupply_def misc_offsets
    by (rule decodeInt_insertInt) simp_all
next
  assume "fits_uint 31 ts"
  then show "oracleSampleCreationTimestamp (setOracleSampleCreationTimestamp data ts) = ts"
    unfolding oracleSampleCreationTimestamp_def setOracleSampleCreationTimestamp_def misc_offsets
    by (rule decodeUint_insertUint) simp
next
  assume "fits_uint 10 ix"
  then show "oracleIndex (setOracleIndex data ix) = ix"
    unfolding oracleIndex_def setOracleIndex_def misc_offsets
    by (rule decodeUint_insertUint) simp
next
  show "oracleEnabled (setOracleEnabled data en) = en"
    unfolding oracleEnabled_def setOracleEnabled_def misc_offsets
    by (rule decodeBool_insertBool) simp
qed

theorem misc_data_round_trip_witness:
  "fits_int 22 (- 5) \<and> logInvariant (setLogInvariant (- 1) (- 5)) = - 5 \<and>
   fits_int 22 2097151 \<and> logTotalSupply (setLogTotalSupply (- 1) 2097151) = 2097151 \<and>
   fits_uint 31 1667456789 \<and>
   oracleSampleCreationTimestamp (setOracleSampleCreationTimestamp (- 1) 1667456789) = 1667456789 \<and>
   fits_uint 10 1023 \<and> oracleIndex (setOracleIndex (- 1) 1023) = 1023 \<and>
   oracleEnabled (setOracleEnabled (- 1) False) = False"
proof -
  have a: "fits_int 22 (- 5)" by (simp add: fits_int_def)
  have b: "fits_int 22 2097151" by (simp add: fits_int_def)
  have c: "fits_uint 31 1667456789" by (simp add: fits_uint_def)
  have d: "fits_uint 10 1023" by (simp add: fits_uint_def)
  show ?thesis
    using a b c d
      misc_data_round_trip [of "- 5" "- 1" 2097151 1667456789 1023 False]
    by simp
qed

text \<open>
  Claim C4. Frame property of the misc-data codec: the fields lie in the disjoint bit
  ranges 0-21, 22-43, 44-74, 75-84 and 85, a setter changes no bit outside the range of
  its field, and so, for every word \<open>data\<close> and in-range value, every getter returns
  after any other field's setter what it returned before.
\<close>

theorem misc_data_frame:
  assumes "fits_uint 31 ts" and "fits_uint 10 ix"
  shows "logTotalSupply (setLogInvariant data li) = logTotalSupply data \<and>
     oracleSampleCreationTimestamp (setLogInvariant data li) = oracleSampleCreationTimestamp data \<and>
     oracleIndex (setLogInvariant data li) = oracleIndex data \<and>
     oracleEnabled (setLogInvariant data li) = oracleEnabled data \<and>
     logInvariant (setLogTotalSupply data ls) = logInvariant data \<and>
     oracleSampleCreationTimestamp (setLogTotalSupply data ls) = oracleSampleCreationTimestamp data \<and>
     oracleIndex (setLogTotalSupply data ls) = oracleIndex data \<and>
     oracleEnabled (setLogTotalSupply data ls) = oracleEnabled data \<and>
     logInvariant (setOracleSampleCreationTimestamp data ts) = logInvariant data \<and>
     logTotalSupply (setOracleSampleCreationTimestamp data ts) = logTotalSupply data \<and>
     oracleIndex (setOracleSampleCreationTimestamp data ts) = oracleIndex data \<and>
     oracleEnabled (setOracleSampleCreationTimestamp data ts) = oracleEnabled data \<and>
     logInvariant (setOracleIndex data ix) = logInvariant data \<and>
     logTotalSupply (setOracleIndex data ix) = logTotalSupply data \<and>
     oracleSampleCreationTimestamp (setOracleIndex data ix) = oracleSampleCreationTimestamp data \<and>
     oracleEnabled (setOracleIndex data ix) = oracleEnabled data \<and>
     logInvariant (setOracleEnabled data en) = logInvariant data \<and>
     logTotalSupply (setOracleEnabled data en) = logTotalSupply data \<and>
     oracleSampleCreationTimestamp (setOracleEnabled data en) = oracleSampleCreationTimestamp data \<and>
     oracleIndex (setOracleEnabled data en) = oracleIndex data \<and>
     (\<forall>n. bit (setLogInvariant data li) n \<noteq> bit data n \<longrightarrow> n < 22) \<and>
     (\<forall>n. bit (setLogTotalSupply data ls) n \<noteq> bit data n \<longrightarrow> 22 \<le> n \<and> n < 44) \<and>
     (\<forall>n. bit (setOracleSampleCreationTimestamp data ts) n \<noteq> bit data n \<longrightarrow>
          44 \<le> n \<and> n < 75) \<and>
     (\<forall>n. bit (setOracleIndex data ix) n \<noteq> bit data n \<longrightarrow> 75 \<le> n \<and> n < 85) \<and>
     (\<forall>n. bit (setOracleEnabled data en) n \<noteq> bit data n \<longrightarrow> n = 85)"
proof (intro conjI)
  show "\<forall>n. bit (setLogInvariant data li) n \<noteq> bit data n \<longrightarrow> n < 22"
    using setLogInvariant_outside by blast
next
  show "\<forall>n. bit (setLogTotalSupply data ls) n \<noteq> bit data n \<longrightarrow> 22 \<le> n \<and> n < 44"
    using setLogTotalSupply_outside by blast
next
  show "\<forall>n. bit (setOracleSampleCreationTimestamp data ts) n \<noteq> bit data n \<longrightarrow>
          44 \<le> n \<and> n < 75"
    using setOracleSampleCreationTimestamp_outside [OF assms(1)] by blast
next
  show "\<forall>n. bit (setOracleIndex data ix) n \<noteq> bit data n \<longrightarrow> 75 \<le> n \<and> n < 85"
    using setOracleIndex_outside [OF assms(2)] by blast
next
  show "\<forall>n. bit (setOracleEnabled data en) n \<noteq> bit data n \<longrightarrow> n = 85"
    using setOracleEnabled_outside by blast
next
  show "logTotalSupply (setLogInvariant data li) = logTotalSupply data"
    by (rule logTotalSupply_cong) (simp add: setLogInvariant_outside assms)
next
  show "oracleSampleCreationTimestamp (setLogInvariant data li) = oracleSampleCreationTimestamp data"
    by (rule oracleSampleCreationTimestamp_cong) (simp add: setLogInvariant_outside assms)
next
  show "oracleIndex (setLogInvariant data li) = oracleIndex data"
    by (rule oracleIndex_cong) (simp add: setLogInvariant_outside assms)
next
  show "oracleEnabled (setLogInvariant data li) = oracleEnabled data"
    by (rule oracleEnabled_cong) (simp add: setLogInvariant_outside assms)
next
  show "logInvariant (setLogTotalSupply data ls) = logInvariant data"
    by (rule logInvariant_cong) (simp add: setLogTotalSupply_outside assms)
next
  show "oracleSampleCreationTimestamp (setLogTotalSupply data ls) = oracleSampleCreationTimestamp data"
    by (rule oracleSampleCreationTimestamp_cong) (simp add: setLogTotalSupply_outside assms)
next
  show "oracleIndex (setLogTotalSupply data ls) = oracleIndex data"
    by (rule oracleIndex_cong) (simp add: setLogTotalSupply_outside assms)
next
  show "oracleEnabled (setLogTotalSupply data ls) = oracleEnabled data"
    by (rule oracleEnabled_cong) (simp add: setLogTotalSupply_outside assms)
next
  show "logInvariant (setOracleSampleCreationTimestamp data ts) = logInvariant data"
    by (rule logInvariant_cong) (simp add: setOracleSampleCreationTimestamp_outside assms)
next
  show "logTotalSupply (setOracleSampleCreationTimestamp data ts) = logTotalSupply data"
    by (rule logTotalSupply_cong) (simp add: setOracleSampleCreationTimestamp_outside assms)
next
  show "oracleIndex (setOracleSampleCreationTimestamp data ts) = oracleIndex data"
    by (rule oracleIndex_cong) (simp add: setOracleSampleCreationTimestamp_outside assms)
next
  show "oracleEnabled (setOracleSampleCreationTimestamp data ts) = oracleEnabled data"
    by (rule oracleEnabled_cong) (simp add: setOracleSampleCreationTimestamp_outside assms)
next
  show "logInvariant (setOracleIndex data ix) = logInvariant data"
    by (rule logInvariant_cong) (simp add: setOracleIndex_outside assms)
next
  show "logTotalSupply (setOracleIndex data ix) = logTotalSupply data"
    by (rule logTotalSupply_cong) (simp add: setOracleIndex_outside assms)
next
  show "oracleSampleCreationTimestamp (setOracleIndex data ix) = oracleSampleCreationTimestamp data"
    by (rule oracleSampleCreationTimestamp_cong) (simp add: setOracleIndex_outside assms)
next
  show "oracleEnabled (setOracleIndex data ix) = oracleEnabled data"
    by (rule oracleEnabled_cong) (simp add: setOracleIndex_outside assms)
next
  show "logInvariant (setOracleEnabled data en) = logInvariant data"
    by (rule logInvariant_cong) (simp add: setOracleEnabled_outside assms)
next
  show "logTotalSupply (setOracleEnabled data en) = logTotalSupply data"
    by (rule logTotalSupply_cong) (simp add: setOracleEnabled_outside assms)
next
  show "oracleSampleCreationTimestamp (setOracleEnabled data en) = oracleSampleCreationTimestamp data"
    by (rule oracleSampleCreationTimestamp_cong) (simp add: setOracleEnabled_outside assms)
next
  show "oracleIndex (setOracleEnabled data en) = oracleIndex data"
    by (rule oracleIndex_cong) (simp add: setOracleEnabled_outside assms)
qed

theorem misc_data_frame_witness:
  "fits_uint 31 1667456789 \<and> fits_uint 10 1023 \<and>
   logInvariant (setOracleSampleCreationTimestamp (- 1) 1667456789) = logInvariant (- 1) \<and>
   oracleEnabled (setOracleIndex (- 1) 1023) = oracleEnabled (- 1) \<and>
   oracleIndex (setLogTotalSupply (- 1) (- 5)) = oracleIndex (- 1)"
proof -
  have c: "fits_uint 31 1667456789" by (simp add: fits_uint_def)
  have d: "fits_uint 10 1023" by (simp add: fits_uint_def)
  show ?thesis
    using c d misc_data_frame [OF c d, of "- 1" 0 "- 5" False]
    by simp
qed

section \<open>Properties of the pool\<close>

lemma MASK_192_mask: "MASK_192 = mask 192"
  by (simp only: MASK_192_def mask_eq_exp_minus_1)

lemma bit_insertBits192_0:
  "bit (insertBits192 w v 0) n \<longleftrightarrow> (if n < 192 then bit v n else bit w n)"
  unfolding insertBits192_def Let_def MASK_192_mask
  by (auto simp add: bit_simps dest: bit_imp_le_length)

lemma getSwapFeePercentage_cong:
  "(\<And>n. 192 \<le> n \<Longrightarrow> bit (miscData s) n = bit (miscData s') n) \<Longrightarrow>
   getSwapFeePercentage s = getSwapFeePercentage s'"
  unfolding getSwapFeePercentage_def SWAP_FEE_PERCENTAGE_OFFSET_def
  by (rule decodeUint_cong) simp

lemma getSwapFeePercentage_setMiscData:
  "getSwapFeePercentage (internal_setMiscData newData s) = getSwapFeePercentage s"
  by (rule getSwapFeePercentage_cong) (simp add: internal_setMiscData_def bit_insertBits192_0)

lemma fee_fits:
  assumes "v \<le> MAX_SWAP_FEE"
  shows "fits_uint 64 v"
proof -
  have "unat v \<le> unat MAX_SWAP_FEE" using assms by (simp only: word_le_nat_alt)
  also have "unat MAX_SWAP_FEE = 100000000000000000" by (simp add: MAX_SWAP_FEE_def)
  finally show ?thesis by (simp add: fits_uint_def)
qed

lemma setSwapFee_internal_cases:
  "internal_setSwapFeePercentage v s =
     (if v < MIN_SWAP_FEE then Inl MIN_SWAP_FEE_PERCENTAGE
      else if MAX_SWAP_FEE < v then Inl MAX_SWAP_FEE_PERCENTAGE
      else Inr (s\<lparr>miscData := insertUint (miscData s) v 192 64\<rparr>))"
  by (simp add: internal_setSwapFeePercentage_def getMinSwapFeePercentage_def
      getMaxSwapFeePercentage_def SWAP_FEE_PERCENTAGE_OFFSET_def not_le)

lemma setSwapFee_internal_Inr:
  assumes "internal_setSwapFeePercentage v s = Inr s'"
  shows "MIN_SWAP_FEE \<le> v" and "v \<le> MAX_SWAP_FEE"
    and "s' = s\<lparr>miscData := insertUint (miscData s) v 192 64\<rparr>"
  using assms by (auto simp add: setSwapFee_internal_cases not_less split: if_splits)

lemma getSwapFee_after_set:
  assumes "internal_setSwapFeePercentage v s = Inr s'"
  shows "getSwapFeePercentage s' = v"
proof -
  have "fits_uint 64 v" using setSwapFee_internal_Inr(2) [OF assms] by (rule fee_fits)
  then have "decodeUint (insertUint (miscData s) v 192 64) 192 64 = v"
    by (rule decodeUint_insertUint) simp
  then show ?thesis
    by (simp add: setSwapFee_internal_Inr(3) [OF assms] getSwapFeePercentage_def
        SWAP_FEE_PERCENTAGE_OFFSET_def)
qed

lemma low_bits_after_set:
  assumes "internal_setSwapFeePercentage v s = Inr s'"
  shows "take_bit 192 (miscData s') = take_bit 192 (miscData s)"
proof (rule bit_word_eqI)
  fix n assume "n < LENGTH(256)"
  show "bit (take_bit 192 (miscData s')) n = bit (take_bit 192 (miscData s)) n"
    by (auto simp add: setSwapFee_internal_Inr(3) [OF assms] bit_take_bit_iff bit_insertUint)
qed

lemma low_bits_transact_set:
  "take_bit 192 (miscData (transact (internal_setSwapFeePercentage v s) s)) =
   take_bit 192 (miscData s)"
  by (cases "internal_setSwapFeePercentage v s") (simp_all add: transact_def low_bits_after_set)

lemma getSwapFeePercentage_msb: "getSwapFeePercentage s = drop_bit 192 (miscData s)"
  by (rule bit_word_eqI)
    (auto simp add: getSwapFeePercentage_def SWAP_FEE_PERCENTAGE_OFFSET_def bit_decodeUint
      bit_drop_bit_eq dest: bit_imp_le_length)

text \<open>
  Claim C5. The swap fee and the pool-specific misc data share the slot \<open>_miscData\<close>
  without interference: the fee is the most significant 64 bits, \<open>_setMiscData\<close>
  leaves \<open>getSwapFeePercentage\<close> as it was for every \<open>newData\<close>, and
  \<open>_setSwapFeePercentage\<close>, whether it stores the fee or reverts, leaves the least
  significant 192 bits as they were.
\<close>

theorem swap_fee_and_misc_data_share_slot:
  "getSwapFeePercentage s = drop_bit 192 (miscData s) \<and>
   getSwapFeePercentage (internal_setMiscData newData s) = getSwapFeePercentage s \<and>
   take_bit 192 (miscData (transact (internal_setSwapFeePercentage v s) s)) =
     take_bit 192 (miscData s)"
  by (simp only: getSwapFeePercentage_msb [symmetric] getSwapFeePercentage_setMiscData
      low_bits_transact_set simp_thms)

lemma getSwapFeePercentage_pausable [simp]:
  "getSwapFeePercentage (s\<lparr>pausable := p\<rparr>) = getSwapFeePercentage s"
  by (simp add: getSwapFeePercentage_def)

lemma internal_set_in_range:
  "internal_setSwapFeePercentage v s = Inr s' \<Longrightarrow> fee_in_range s'"
  using getSwapFee_after_set [of v s s'] setSwapFee_internal_Inr(1,2) [of v s s']
  by (simp add: fee_in_range_def)

lemma pool_step_fee:
  assumes "pool_step env m c s = Inr s'" "fee_in_range s"
  shows "fee_in_range s'"
proof (cases c)
  case (SetSwapFeePercentage v)
  with assms(1) have "internal_setSwapFeePercentage v s = Inr s'"
    by (simp add: setSwapFeePercentage_def split: if_splits)
  then show ?thesis by (rule internal_set_in_range)
next
  case (SetAssetManagerPoolConfig token cfg)
  with assms show ?thesis
    by (auto simp add: setAssetManagerPoolConfig_def internal_setAssetManagerPoolConfig_def
        split: if_splits option.splits)
next
  case Pause
  with assms show ?thesis
    by (auto simp add: pause_def internal_setPaused_def fee_in_range_def
        split: if_splits sum.splits)
next
  case Unpause
  with assms show ?thesis
    by (auto simp add: unpause_def internal_setPaused_def fee_in_range_def
        split: if_splits sum.splits)
next
  case (InternalSetMiscData d)
  with assms show ?thesis
    by (auto simp add: fee_in_range_def getSwapFeePercentage_setMiscData)
qed

lemma pool_exec_fee:
  "fee_in_range s \<Longrightarrow> fee_in_range (pool_exec cs s)"
proof (induction cs arbitrary: s)
  case Nil
  then show ?case by simp
next
  case (Cons a cs)
  obtain env m c where a: "a = (env, m, c)" by (cases a)
  have "fee_in_range (transact (pool_step env m c s) s)"
    using Cons.prems pool_step_fee [of env m c s]
    by (cases "pool_step env m c s") (simp_all add: transact_def)
  then show ?case using Cons.IH by (simp add: a)
qed

lemma pool_constructor_Inr:
  assumes "pool_constructor env m v sp tokens ams fee pw bp owner = Inr s"
  shows "\<exists>p s1 pid. initPausable env pw bp (timestamp m) = Inr p \<and>
           internal_setSwapFeePercentage fee
             \<lparr>miscData = 0, vault = 0, poolId = 0, protocolFeesCollector = 0, pausable = p\<rparr> = Inr s1 \<and>
           registerPool env sp = Inr pid \<and>
           s = s1\<lparr>vault := v, poolId := pid,
                    protocolFeesCollector := vault_getProtocolFeesCollector env\<rparr>"
  using assms unfolding pool_constructor_def
  by (auto split: sum.splits if_splits option.splits)

lemma pool_constructor_fee:
  assumes "pool_constructor env m v sp tokens ams fee pw bp owner = Inr s"
  shows "fee_in_range s"
proof -
  from pool_constructor_Inr [OF assms] obtain p s1 pid where
    s1: "internal_setSwapFeePercentage fee
             \<lparr>miscData = 0, vault = 0, poolId = 0, protocolFeesCollector = 0, pausable = p\<rparr> = Inr s1"
    and s: "s = s1\<lparr>vault := v, poolId := pid,
                    protocolFeesCollector := vault_getProtocolFeesCollector env\<rparr>"
    by blast
  have "fee_in_range s1" using s1 by (rule internal_set_in_range)
  then show ?thesis by (simp add: s fee_in_range_def getSwapFeePercentage_def)
qed

text \<open>
  Claim C2. Swap-fee invariant: in every state reached from a successful constructor by
  any sequence of calls, \<open>getSwapFeePercentage\<close> lies between \<open>1e12\<close> and
  \<open>1e17\<close>; \<open>_setSwapFeePercentage\<close> reverts with \<open>MIN_SWAP_FEE_PERCENTAGE\<close>
  below that range and with \<open>MAX_SWAP_FEE_PERCENTAGE\<close> above it, leaving the stored
  misc data unchanged, and inside the range it stores the fee.
\<close>

theorem swap_fee_invariant:
  "(\<forall>s0. pool_constructor env m v sp tokens ams fee pw bp owner = Inr s0 \<longrightarrow>
      MIN_SWAP_FEE \<le> getSwapFeePercentage (pool_exec calls s0) \<and>
      getSwapFeePercentage (pool_exec calls s0) \<le> MAX_SWAP_FEE) \<and>
   unat MIN_SWAP_FEE = 10 ^ 12 \<and> unat MAX_SWAP_FEE = 10 ^ 17 \<and>
   (lo < MIN_SWAP_FEE \<longrightarrow>
      internal_setSwapFeePercentage lo s = Inl MIN_SWAP_FEE_PERCENTAGE \<and>
      miscData (transact (internal_setSwapFeePercentage lo s) s) = miscData s) \<and>
   (MAX_SWAP_FEE < hi \<longrightarrow>
      internal_setSwapFeePercentage hi s = Inl MAX_SWAP_FEE_PERCENTAGE \<and>
      miscData (transact (internal_setSwapFeePercentage hi s) s) = miscData s) \<and>
   (MIN_SWAP_FEE \<le> x \<and> x \<le> MAX_SWAP_FEE \<longrightarrow>
      (\<exists>s'. internal_setSwapFeePercentage x s = Inr s' \<and> getSwapFeePercentage s' = x))"
proof (intro conjI allI impI)
  fix s0 assume c: "pool_constructor env m v sp tokens ams fee pw bp owner = Inr s0"
  have "fee_in_range (pool_exec calls s0)"
    using pool_constructor_fee [OF c] by (rule pool_exec_fee)
  then show "MIN_SWAP_FEE \<le> getSwapFeePercentage (pool_exec calls s0)"
    and "getSwapFeePercentage (pool_exec calls s0) \<le> MAX_SWAP_FEE"
    by (simp_all add: fee_in_range_def)
next
  show "unat MIN_SWAP_FEE = 10 ^ 12" by (simp add: MIN_SWAP_FEE_def)
next
  show "unat MAX_SWAP_FEE = 10 ^ 17" by (simp add: MAX_SWAP_FEE_def)
next
  assume "lo < MIN_SWAP_FEE"
  then show "internal_setSwapFeePercentage lo s = Inl MIN_SWAP_FEE_PERCENTAGE"
    and "miscData (transact (internal_setSwapFeePercentage lo s) s) = miscData s"
    by (simp_all add: setSwapFee_internal_cases transact_def)
next
  assume a: "MAX_SWAP_FEE < hi"
  have "MIN_SWAP_FEE \<le> MAX_SWAP_FEE" by (simp add: MIN_SWAP_FEE_def MAX_SWAP_FEE_def)
  with a have "\<not> hi < MIN_SWAP_FEE" by simp
  with a show "internal_setSwapFeePercentage hi s = Inl MAX_SWAP_FEE_PERCENTAGE"
    and "miscData (transact (internal_setSwapFeePercentage hi s) s) = miscData s"
    by (simp_all add: setSwapFee_internal_cases transact_def)
next
  assume a: "MIN_SWAP_FEE \<le> x \<and> x \<le> MAX_SWAP_FEE"
  then have e: "internal_setSwapFeePercentage x s = Inr (s\<lparr>miscData := insertUint (miscData s) x 192 64\<rparr>)"
    by (simp add: setSwapFee_internal_cases not_less)
  then show "\<exists>s'. internal_setSwapFeePercentage x s = Inr s' \<and> getSwapFeePercentage s' = x"
    using getSwapFee_after_set [OF e] by simp
qed

lemma example_pool_constructed:
  "pool_constructor example_pool_env \<lparr>sender = 1, timestamp = 0\<rparr> 5 GENERAL [1, 2] [0, 0]
     3000000000000000 0 0 1 = Inr example_pool"
  by (simp add: pool_constructor_def example_pool_env_def example_pool_def
      setSwapFee_internal_cases MIN_SWAP_FEE_def MAX_SWAP_FEE_def MIN_TOKENS_COUNT_def
      insertUint_def)

theorem swap_fee_and_misc_data_share_slot_witness:
  "getSwapFeePercentage (internal_setMiscData (- 1) example_pool) =
     getSwapFeePercentage example_pool \<and>
   take_bit 192 (miscData (transact (internal_setSwapFeePercentage 1000000000000 example_pool)
     example_pool)) = take_bit 192 (miscData example_pool)"
  using swap_fee_and_misc_data_share_slot [of example_pool "- 1" 1000000000000]
  by simp

theorem swap_fee_invariant_witness:
  "pool_constructor example_pool_env \<lparr>sender = 1, timestamp = 0\<rparr> 5 GENERAL [1, 2] [0, 0]
     3000000000000000 0 0 1 = Inr example_pool \<and>
   MIN_SWAP_FEE \<le> getSwapFeePercentage
     (pool_exec [(example_pool_env, \<lparr>sender = 1, timestamp = 0\<rparr>, SetSwapFeePercentage 5),
                 (example_pool_env, \<lparr>sender = 1, timestamp = 0\<rparr>, InternalSetMiscData (- 1)),
                 (example_pool_env, \<lparr>sender = 1, timestamp = 0\<rparr>,
                    SetSwapFeePercentage 100000000000000000)] example_pool) \<and>
   getSwapFeePercentage
     (pool_exec [(example_pool_env, \<lparr>sender = 1, timestamp = 0\<rparr>, SetSwapFeePercentage 5),
                 (example_pool_env, \<lparr>sender = 1, timestamp = 0\<rparr>, InternalSetMiscData (- 1)),
                 (example_pool_env, \<lparr>sender = 1, timestamp = 0\<rparr>,
                    SetSwapFeePercentage 100000000000000000)] example_pool) \<le> MAX_SWAP_FEE \<and>
   (5 :: uint256) < MIN_SWAP_FEE \<and>
   internal_setSwapFeePercentage 5 example_pool = Inl MIN_SWAP_FEE_PERCENTAGE \<and>
   miscData (transact (internal_setSwapFeePercentage 5 example_pool) example_pool) =
     miscData example_pool \<and>
   MAX_SWAP_FEE < 100000000000000001 \<and>
   internal_setSwapFeePercentage 100000000000000001 example_pool =
     Inl MAX_SWAP_FEE_PERCENTAGE \<and>
   MIN_SWAP_FEE \<le> 1000000000000 \<and> 1000000000000 \<le> MAX_SWAP_FEE \<and>
   (\<exists>s'. internal_setSwapFeePercentage 1000000000000 example_pool = Inr s' \<and>
      getSwapFeePercentage s' = 1000000000000)"
proof -
  have lo: "(5 :: uint256) < MIN_SWAP_FEE" by (simp add: MIN_SWAP_FEE_def)
  have hi: "MAX_SWAP_FEE < 100000000000000001" by (simp add: MAX_SWAP_FEE_def)
  have ok: "MIN_SWAP_FEE \<le> 1000000000000 \<and> 1000000000000 \<le> MAX_SWAP_FEE"
    by (simp add: MIN_SWAP_FEE_def MAX_SWAP_FEE_def)
  show ?thesis
    using example_pool_constructed lo hi ok
      swap_fee_invariant [of example_pool_env "\<lparr>sender = 1, timestamp = 0\<rparr>" 5 GENERAL
        "[1, 2]" "[0, 0]" 3000000000000000 0 0 1 _ 5 example_pool 100000000000000001
        1000000000000]
    by blast
qed

section \<open>Immutable state\<close>

lemma example_withdrawer_constructed:
  "withdrawer_constructor 9 [3, 4] = Inr example_withdrawer"
  by (simp add: withdrawer_constructor_def example_withdrawer_def internal_denylistToken_def
      es_add_def es_contains_def)

lemma pool_step_immutables:
  assumes "pool_step env m c s = Inr s'"
  shows "vault s' = vault s \<and> poolId s' = poolId s \<and>
         protocolFeesCollector s' = protocolFeesCollector s"
proof (cases c)
  case (SetSwapFeePercentage v)
  with assms show ?thesis
    by (auto simp add: setSwapFeePercentage_def internal_setSwapFeePercentage_def
        split: if_splits)
next
  case (SetAssetManagerPoolConfig token cfg)
  with assms show ?thesis
    by (auto simp add: setAssetManagerPoolConfig_def internal_setAssetManagerPoolConfig_def
        split: if_splits option.splits)
next
  case Pause
  with assms show ?thesis
    by (auto simp add: pause_def internal_setPaused_def split: if_splits sum.splits)
next
  case Unpause
  with assms show ?thesis
    by (auto simp add: unpause_def internal_setPaused_def split: if_splits sum.splits)
next
  case (InternalSetMiscData d)
  with assms show ?thesis by (auto simp add: internal_setMiscData_def)
qed

lemma pool_exec_immutables:
  "vault (pool_exec cs s) = vault s \<and> poolId (pool_exec cs s) = poolId s \<and>
   protocolFeesCollector (pool_exec cs s) = protocolFeesCollector s"
proof (induction cs arbitrary: s)
  case Nil
  show ?case by simp
next
  case (Cons a cs)
  obtain env m c where a: "a = (env, m, c)" by (cases a)
  let ?t = "transact (pool_step env m c s) s"
  have "vault ?t = vault s \<and> poolId ?t = poolId s \<and>
        protocolFeesCollector ?t = protocolFeesCollector s"
    using pool_step_immutables [of env m c s]
    by (cases "pool_step env m c s") (simp_all add: transact_def)
  then show ?case using Cons.IH [of ?t] by (simp add: a)
qed

lemma withdrawer_step_collector:
  assumes "withdrawer_step env m c s = Inr s'"
  shows "w_protocolFeesCollector s' = w_protocolFeesCollector s"
proof (cases c)
  case (WithdrawCollectedFees tokens amounts recipient)
  with assms show ?thesis
    by (auto simp add: withdrawCollectedFees_def Let_def split: if_splits option.splits)
next
  case (DenylistToken t)
  with assms show ?thesis
    by (auto simp add: denylistToken_def internal_denylistToken_def es_add_def
        split: if_splits)
next
  case (AllowlistToken t)
  with assms show ?thesis
    by (auto simp add: allowlistToken_def es_remove_def Let_def split: if_splits)
qed

lemma withdrawer_exec_collector:
  "w_protocolFeesCollector (withdrawer_exec cs s) = w_protocolFeesCollector s"
proof (induction cs arbitrary: s)
  case Nil
  show ?case by simp
next
  case (Cons a cs)
  obtain env m c where a: "a = (env, m, c)" by (cases a)
  let ?t = "transact (withdrawer_step env m c s) s"
  have "w_protocolFeesCollector ?t = w_protocolFeesCollector s"
    using withdrawer_step_collector [of env m c s]
    by (cases "withdrawer_step env m c s") (simp_all add: transact_def)
  then show ?case using Cons.IH [of ?t] by (simp add: a)
qed

lemma denylist_initial_collector:
  "denylist_initial ts s = Inr s' \<Longrightarrow> w_protocolFeesCollector s' = w_protocolFeesCollector s"
proof (induction ts arbitrary: s)
  case Nil
  then show ?case by simp
next
  case (Cons t ts)
  then show ?case
    by (auto simp add: internal_denylistToken_def es_add_def split: sum.splits if_splits)
qed

text \<open>
  Claim C6. Immutable state: the vault, the pool id and the fees collector of the pool,
  and the fees collector of the withdrawer, are what the constructor set them to, and
  \<open>getVault\<close>, \<open>getPoolId\<close> and \<open>getProtocolFeesCollector\<close> return the same
  value after every sequence of calls.
\<close>

theorem immutables_fixed:
  "getVault (pool_exec calls s) = getVault s \<and>
   getPoolId (pool_exec calls s) = getPoolId s \<and>
   getProtocolFeesCollector (pool_exec calls s) = getProtocolFeesCollector s \<and>
   withdrawer_getProtocolFeesCollector (withdrawer_exec wcalls w) =
     withdrawer_getProtocolFeesCollector w \<and>
   (\<forall>s0. pool_constructor env m v sp tokens ams fee pw bp owner = Inr s0 \<longrightarrow>
      getVault s0 = v \<and> registerPool env sp = Inr (getPoolId s0) \<and>
      getProtocolFeesCollector s0 = vault_getProtocolFeesCollector env) \<and>
   (\<forall>w0. withdrawer_constructor vc initial = Inr w0 \<longrightarrow>
      withdrawer_getProtocolFeesCollector w0 = vc)"
proof (intro conjI allI impI)
  show "getVault (pool_exec calls s) = getVault s"
    by (simp add: getVault_def pool_exec_immutables)
  show "getPoolId (pool_exec calls s) = getPoolId s"
    by (simp add: getPoolId_def pool_exec_immutables)
  show "getProtocolFeesCollector (pool_exec calls s) = getProtocolFeesCollector s"
    by (simp add: getProtocolFeesCollector_def pool_exec_immutables)
  show "withdrawer_getProtocolFeesCollector (withdrawer_exec wcalls w) =
     withdrawer_getProtocolFeesCollector w"
    by (simp add: withdrawer_getProtocolFeesCollector_def withdrawer_exec_collector)
next
  fix s0 assume c: "pool_constructor env m v sp tokens ams fee pw bp owner = Inr s0"
  from pool_constructor_Inr [OF c] obtain p s1 pid where
    rp: "registerPool env sp = Inr pid"
    and s: "s0 = s1\<lparr>vault := v, poolId := pid,
                    protocolFeesCollector := vault_getProtocolFeesCollector env\<rparr>"
    by blast
  show "getVault s0 = v" by (simp add: s getVault_def)
  show "registerPool env sp = Inr (getPoolId s0)" by (simp add: s rp getPoolId_def)
  show "getProtocolFeesCollector s0 = vault_getProtocolFeesCollector env"
    by (simp add: s getProtocolFeesCollector_def)
next
  fix w0 assume "withdrawer_constructor vc initial = Inr w0"
  then show "withdrawer_getProtocolFeesCollector w0 = vc"
    using denylist_initial_collector
    by (fastforce simp add: withdrawer_constructor_def withdrawer_getProtocolFeesCollector_def)
qed


theorem immutables_fixed_witness:
  "pool_constructor example_pool_env \<lparr>sender = 1, timestamp = 0\<rparr> 5 GENERAL [1, 2] [0, 0]
     3000000000000000 0 0 1 = Inr example_pool \<and>
   getVault example_pool = 5 \<and>
   registerPool example_pool_env GENERAL = Inr (getPoolId example_pool) \<and>
   getProtocolFeesCollector example_pool = vault_getProtocolFeesCollector example_pool_env \<and>
   getVault (pool_exec [(example_pool_env, \<lparr>sender = 1, timestamp = 0\<rparr>,
       SetSwapFeePercentage 1000000000000)] example_pool) = getVault example_pool \<and>
   withdrawer_constructor 9 [3, 4] = Inr example_withdrawer \<and>
   withdrawer_getProtocolFeesCollector example_withdrawer = 9 \<and>
   withdrawer_getProtocolFeesCollector
     (withdrawer_exec [(example_withdrawer_env, \<lparr>sender = 1, timestamp = 0\<rparr>,
        AllowlistToken 3)] example_withdrawer) =
     withdrawer_getProtocolFeesCollector example_withdrawer"
  using example_pool_constructed example_withdrawer_constructed
    immutables_fixed [of
      "[(example_pool_env, \<lparr>sender = 1, timestamp = 0\<rparr>, SetSwapFeePercentage 1000000000000)]"
      example_pool
      "[(example_withdrawer_env, \<lparr>sender = 1, timestamp = 0\<rparr>, AllowlistToken 3)]"
      example_withdrawer
      example_pool_env "\<lparr>sender = 1, timestamp = 0\<rparr>" 5 GENERAL
        "[1, 2]" "[0, 0]" 3000000000000000 0 0 1 9 "[3, 4]"]
  by blast

section \<open>Properties of the withdrawer\<close>

lemma es_indexOf_first:
  "v \<notin> set xs \<Longrightarrow> es_indexOf (xs @ v # ys) v = length xs"
  by (induction xs) auto

lemma es_remove_split:
  assumes "v \<notin> set xs"
  shows "es_remove (xs @ v # ys) v =
           ((if ys = [] then xs else xs @ last ys # butlast ys), True)"
proof (cases "ys = []")
  case True
  then show ?thesis
    using assms by (simp add: es_remove_def es_contains_def es_indexOf_first Let_def)
next
  case False
  then have "length xs \<noteq> length xs + length ys" by simp
  moreover have "(xs @ v # ys) ! (length xs + length ys) = last ys"
    using False by (simp add: nth_append last_conv_nth)
  moreover have "butlast (xs @ last ys # ys) = xs @ last ys # butlast ys"
    using False by (simp add: butlast_append)
  ultimately show ?thesis
    using assms False
    by (simp add: es_remove_def es_contains_def es_indexOf_first Let_def)
qed

lemma es_remove_absent:
  "v \<notin> set vs \<Longrightarrow> es_remove vs v = (vs, False)"
  by (simp add: es_remove_def es_contains_def)

lemma es_remove_present:
  assumes "v \<in> set vs" "distinct vs"
  shows "snd (es_remove vs v) \<and> set (fst (es_remove vs v)) = set vs - {v} \<and>
         distinct (fst (es_remove vs v))"
proof -
  from split_list_first [OF assms(1)] obtain xs ys where
    vs: "vs = xs @ v # ys" and nx: "v \<notin> set xs" by blast
  have d: "distinct xs" "distinct ys" "v \<notin> set ys" "set xs \<inter> set ys = {}"
    using assms(2) vs by auto
  show ?thesis
  proof (cases "ys = []")
    case True
    with vs nx d show ?thesis by (simp add: es_remove_split)
  next
    case False
    then have ys: "ys = butlast ys @ [last ys]" by simp
    have l: "last ys \<in> set ys" using False by simp
    have "set ys = insert (last ys) (set (butlast ys))"
      using ys by (metis list.simps(15) rotate1.simps(2) set_rotate1)
    moreover have "last ys \<notin> set (butlast ys)"
      using d(2) ys by (metis distinct_butlast not_distinct_conv_prefix distinct_append  distinct.simps(2) disjoint_insert(1) list.set(1,2))
    moreover have "distinct (butlast ys)" using d(2) by (rule distinct_butlast)
    moreover have "set (butlast ys) \<subseteq> set ys" by (metis calculation(1) subset_insertI)
    ultimately show ?thesis
      using vs nx d l False by (auto simp add: es_remove_split)
  qed
qed

lemma internal_denylistToken_cases:
  "internal_denylistToken t s =
     (if t \<in> set (denylistedTokens s) then Inl TOKEN_ALREADY_DENYLISTED
      else Inr (s\<lparr>denylistedTokens := denylistedTokens s @ [t]\<rparr>))"
  by (simp add: internal_denylistToken_def es_add_def es_contains_def)

lemma internal_denylistToken_distinct:
  "internal_denylistToken t s = Inr s' \<Longrightarrow> distinct (denylistedTokens s) \<Longrightarrow>
   distinct (denylistedTokens s')"
  by (auto simp add: internal_denylistToken_cases split: if_splits)

lemma allowlistToken_Inr:
  assumes "allowlistToken env m t s = Inr s'"
  shows "t \<in> set (denylistedTokens s) \<and>
         s' = s\<lparr>denylistedTokens := fst (es_remove (denylistedTokens s) t)\<rparr>"
proof (cases "t \<in> set (denylistedTokens s)")
  case True
  with assms show ?thesis
    by (auto simp add: allowlistToken_def split: if_splits prod.splits)
next
  case False
  with assms show ?thesis
    by (simp add: allowlistToken_def es_remove_absent split: if_splits)
qed

lemma withdrawer_step_distinct:
  assumes "withdrawer_step env m c s = Inr s'" "distinct (denylistedTokens s)"
  shows "distinct (denylistedTokens s')"
proof (cases c)
  case (WithdrawCollectedFees tokens amounts recipient)
  with assms show ?thesis
    by (auto simp add: withdrawCollectedFees_def Let_def split: if_splits option.splits)
next
  case (DenylistToken t)
  with assms show ?thesis
    by (auto simp add: denylistToken_def dest: internal_denylistToken_distinct
        split: if_splits)
next
  case (AllowlistToken t)
  with assms(1) have a: "allowlistToken env m t s = Inr s'" by simp
  show ?thesis
    using allowlistToken_Inr [OF a] es_remove_present [of t "denylistedTokens s"] assms(2)
    by simp
qed

lemma withdrawer_exec_distinct:
  "distinct (denylistedTokens s) \<Longrightarrow> distinct (denylistedTokens (withdrawer_exec cs s))"
proof (induction cs arbitrary: s)
  case Nil
  then show ?case by simp
next
  case (Cons a cs)
  obtain env m c where a: "a = (env, m, c)" by (cases a)
  have "distinct (denylistedTokens (transact (withdrawer_step env m c s) s))"
    using Cons.prems withdrawer_step_distinct [of env m c s]
    by (cases "withdrawer_step env m c s") (simp_all add: transact_def)
  then show ?case using Cons.IH by (simp add: a)
qed

lemma denylist_initial_distinct:
  "denylist_initial ts s = Inr s' \<Longrightarrow> distinct (denylistedTokens s) \<Longrightarrow>
   distinct (denylistedTokens s')"
proof (induction ts arbitrary: s)
  case Nil
  then show ?case by simp
next
  case (Cons t ts)
  then show ?case
    by (auto split: sum.splits dest: internal_denylistToken_distinct)
qed

lemma withdrawer_constructor_distinct:
  "withdrawer_constructor vc initial = Inr s0 \<Longrightarrow> distinct (denylistedTokens s0)"
  unfolding withdrawer_constructor_def
  by (erule denylist_initial_distinct) simp

lemma denylistToken_authorised:
  assumes "withdrawer_canPerform env DenylistTokenSel (sender m)"
  shows "denylistToken env m t s =
     (if t \<in> set (denylistedTokens s) then Inl TOKEN_ALREADY_DENYLISTED
      else Inr (s\<lparr>denylistedTokens := denylistedTokens s @ [t]\<rparr>))"
  using assms by (simp add: denylistToken_def internal_denylistToken_cases)

lemma allowlistToken_authorised:
  assumes "withdrawer_canPerform env AllowlistTokenSel (sender m)"
    and "distinct (denylistedTokens s)"
  shows "allowlistToken env m t s =
      (if t \<in> set (denylistedTokens s)
       then Inr (s\<lparr>denylistedTokens := fst (es_remove (denylistedTokens s) t)\<rparr>)
       else Inl TOKEN_NOT_DENYLISTED)"
proof (cases "t \<in> set (denylistedTokens s)")
  case True
  obtain vs' r where e: "es_remove (denylistedTokens s) t = (vs', r)"
    by (cases "es_remove (denylistedTokens s) t")
  have "r" using es_remove_present [OF True assms(2)] by (simp add: e)
  then show ?thesis using assms(1) True by (simp add: allowlistToken_def e)
next
  case False
  then show ?thesis using assms(1) by (simp add: allowlistToken_def es_remove_absent)
qed

lemma denylistToken_Inr:
  assumes "denylistToken env m t s = Inr s'"
  shows "withdrawer_canPerform env DenylistTokenSel (sender m) \<and>
         t \<notin> set (denylistedTokens s) \<and>
         s' = s\<lparr>denylistedTokens := denylistedTokens s @ [t]\<rparr>"
  using assms
  by (auto simp add: denylistToken_def internal_denylistToken_cases split: if_splits)

lemma allowlistToken_Inr_auth:
  "allowlistToken env m t s = Inr s' \<Longrightarrow> withdrawer_canPerform env AllowlistTokenSel (sender m)"
  by (simp add: allowlistToken_def split: if_splits)

text \<open>
  Claim C10, as amended. Denylist set semantics, for a caller that passes the
  \<open>authenticate\<close> modifier of the function called: in every state reached from a
  successful constructor, \<open>denylistToken\<close> reverts exactly when the token is already
  denylisted and \<open>allowlistToken\<close> exactly when it is not (a caller that does not
  pass the modifier is turned away), and the denylist is unchanged on revert; the
  denylist never contains duplicates; after a successful \<open>denylistToken\<close> the token
  is not withdrawable and after a successful \<open>allowlistToken\<close> it is.
\<close>

theorem denylist_set_semantics:
  assumes "withdrawer_constructor vc initial = Inr s0"
    and "s = withdrawer_exec calls s0"
  shows "distinct (denylistedTokens s) \<and>
    (withdrawer_canPerform env DenylistTokenSel (sender m) \<longrightarrow>
       ((\<exists>e. denylistToken env m t s = Inl e) \<longleftrightarrow> \<not> isWithdrawableToken s t) \<and>
       (\<forall>e. denylistToken env m t s = Inl e \<longrightarrow> e = TOKEN_ALREADY_DENYLISTED)) \<and>
    (withdrawer_canPerform env AllowlistTokenSel (sender m) \<longrightarrow>
       ((\<exists>e. allowlistToken env m t s = Inl e) \<longleftrightarrow> isWithdrawableToken s t) \<and>
       (\<forall>e. allowlistToken env m t s = Inl e \<longrightarrow> e = TOKEN_NOT_DENYLISTED)) \<and>
    (\<not> withdrawer_canPerform env DenylistTokenSel (sender m) \<longrightarrow>
       denylistToken env m t s = Inl SENDER_NOT_ALLOWED) \<and>
    (\<not> withdrawer_canPerform env AllowlistTokenSel (sender m) \<longrightarrow>
       allowlistToken env m t s = Inl SENDER_NOT_ALLOWED) \<and>
    (\<forall>e. denylistToken env m t s = Inl e \<longrightarrow>
       denylistedTokens (transact (denylistToken env m t s) s) = denylistedTokens s) \<and>
    (\<forall>e. allowlistToken env m t s = Inl e \<longrightarrow>
       denylistedTokens (transact (allowlistToken env m t s) s) = denylistedTokens s) \<and>
    (\<forall>s'. denylistToken env m t s = Inr s' \<longrightarrow>
       \<not> isWithdrawableToken s' t \<and> distinct (denylistedTokens s') \<and>
       set (denylistedTokens s') = insert t (set (denylistedTokens s))) \<and>
    (\<forall>s'. allowlistToken env m t s = Inr s' \<longrightarrow>
       isWithdrawableToken s' t \<and> distinct (denylistedTokens s') \<and>
       set (denylistedTokens s') = set (denylistedTokens s) - {t})"
proof -
  have d: "distinct (denylistedTokens s)"
    using assms(1,2) by (simp add: withdrawer_constructor_distinct withdrawer_exec_distinct)
  have rm: "t \<in> set (denylistedTokens s) \<Longrightarrow>
      set (fst (es_remove (denylistedTokens s) t)) = set (denylistedTokens s) - {t} \<and>
      distinct (fst (es_remove (denylistedTokens s) t))"
    using es_remove_present [of t "denylistedTokens s"] d by simp
  show ?thesis
  proof (intro conjI allI impI)
    show "distinct (denylistedTokens s)" by (rule d)
  next
    assume a: "withdrawer_canPerform env DenylistTokenSel (sender m)"
    show "(\<exists>e. denylistToken env m t s = Inl e) \<longleftrightarrow> \<not> isWithdrawableToken s t"
      by (simp add: denylistToken_authorised [OF a] isWithdrawableToken_def es_contains_def)
    fix e assume "denylistToken env m t s = Inl e"
    then show "e = TOKEN_ALREADY_DENYLISTED"
      by (simp add: denylistToken_authorised [OF a] split: if_splits)
  next
    assume a: "withdrawer_canPerform env AllowlistTokenSel (sender m)"
    show "(\<exists>e. allowlistToken env m t s = Inl e) \<longleftrightarrow> isWithdrawableToken s t"
      by (simp add: allowlistToken_authorised [OF a d] isWithdrawableToken_def es_contains_def)
    fix e assume "allowlistToken env m t s = Inl e"
    then show "e = TOKEN_NOT_DENYLISTED"
      by (simp add: allowlistToken_authorised [OF a d] split: if_splits)
  next
    assume "\<not> withdrawer_canPerform env DenylistTokenSel (sender m)"
    then show "denylistToken env m t s = Inl SENDER_NOT_ALLOWED"
      by (simp add: denylistToken_def)
  next
    assume "\<not> withdrawer_canPerform env AllowlistTokenSel (sender m)"
    then show "allowlistToken env m t s = Inl SENDER_NOT_ALLOWED"
      by (simp add: allowlistToken_def)
  next
    fix e assume "denylistToken env m t s = Inl e"
    then show "denylistedTokens (transact (denylistToken env m t s) s) = denylistedTokens s"
      by (simp add: transact_def)
  next
    fix e assume "allowlistToken env m t s = Inl e"
    then show "denylistedTokens (transact (allowlistToken env m t s) s) = denylistedTokens s"
      by (simp add: transact_def)
  next
    fix s' assume "denylistToken env m t s = Inr s'"
    from denylistToken_Inr [OF this]
    show "\<not> isWithdrawableToken s' t" and "distinct (denylistedTokens s')"
      and "set (denylistedTokens s') = insert t (set (denylistedTokens s))"
      using d by (simp_all add: isWithdrawableToken_def es_contains_def)
  next
    fix s' assume r: "allowlistToken env m t s = Inr s'"
    from allowlistToken_Inr [OF r] rm
    show "isWithdrawableToken s' t" and "distinct (denylistedTokens s')"
      and "set (denylistedTokens s') = set (denylistedTokens s) - {t}"
      by (simp_all add: isWithdrawableToken_def es_contains_def)
  qed
qed


text \<open>
  Claim C9. The empty array: \<open>isWithdrawableTokens\<close> of the empty token array is
  true, so \<open>withdrawCollectedFees\<close> with empty token and amount arrays never stops
  at the denylist check, whatever the denylist holds: an authorised call goes on to the
  collector.
\<close>

theorem empty_withdrawal_passes_denylist:
  "isWithdrawableTokens s [] \<and>
   withdrawCollectedFees env m [] [] recipient s =
     (if \<not> withdrawer_canPerform env WithdrawCollectedFeesSel (sender m)
      then Inl SENDER_NOT_ALLOWED
      else case ext_revert env
                  (CollectorWithdrawCollectedFees (withdrawer_getProtocolFeesCollector s)
                     [] [] recipient) of
             Some e \<Rightarrow> Inl e
           | None \<Rightarrow>
               Inr (s, CollectorWithdrawCollectedFees (withdrawer_getProtocolFeesCollector s)
                         [] [] recipient))"
  by (simp add: withdrawCollectedFees_def withdrawer_getProtocolFeesCollector_def Let_def
      split: option.splits)

lemma example_withdrawer_exec:
  "withdrawer_exec
     [(example_withdrawer_env, \<lparr>sender = 1, timestamp = 0\<rparr>, DenylistToken 6),
      (example_withdrawer_env, \<lparr>sender = 1, timestamp = 0\<rparr>, AllowlistToken 3)]
     example_withdrawer = \<lparr>w_protocolFeesCollector = 9, denylistedTokens = [6, 4]\<rparr>"
  by (simp add: example_withdrawer_def example_withdrawer_env_def denylistToken_def
      internal_denylistToken_def es_add_def es_contains_def allowlistToken_def es_remove_def
      transact_def Let_def)

theorem denylist_set_semantics_witness:
  "withdrawer_constructor 9 [3, 4] = Inr example_withdrawer \<and>
   distinct (denylistedTokens \<lparr>w_protocolFeesCollector = 9, denylistedTokens = [6, 4]\<rparr>) \<and>
   withdrawer_canPerform example_denylister_env DenylistTokenSel
     (sender \<lparr>sender = 1, timestamp = 0\<rparr>) \<and>
   \<not> withdrawer_canPerform example_denylister_env AllowlistTokenSel
     (sender \<lparr>sender = 1, timestamp = 0\<rparr>) \<and>
   \<not> isWithdrawableToken \<lparr>w_protocolFeesCollector = 9, denylistedTokens = [6, 4]\<rparr> 4 \<and>
   (\<exists>e. denylistToken example_denylister_env \<lparr>sender = 1, timestamp = 0\<rparr> 4
      \<lparr>w_protocolFeesCollector = 9, denylistedTokens = [6, 4]\<rparr> = Inl e) \<and>
   allowlistToken example_denylister_env \<lparr>sender = 1, timestamp = 0\<rparr> 4
      \<lparr>w_protocolFeesCollector = 9, denylistedTokens = [6, 4]\<rparr> = Inl SENDER_NOT_ALLOWED \<and>
   withdrawer_canPerform example_withdrawer_env AllowlistTokenSel
     (sender \<lparr>sender = 1, timestamp = 0\<rparr>) \<and>
   isWithdrawableToken \<lparr>w_protocolFeesCollector = 9, denylistedTokens = [6, 4]\<rparr> 5 \<and>
   (\<exists>e. allowlistToken example_withdrawer_env \<lparr>sender = 1, timestamp = 0\<rparr> 5
      \<lparr>w_protocolFeesCollector = 9, denylistedTokens = [6, 4]\<rparr> = Inl e)"
proof -
  have a: "withdrawer_canPerform example_denylister_env DenylistTokenSel
     (sender \<lparr>sender = 1, timestamp = 0\<rparr>)"
    and na: "\<not> withdrawer_canPerform example_denylister_env AllowlistTokenSel
     (sender \<lparr>sender = 1, timestamp = 0\<rparr>)"
    by (simp_all add: example_denylister_env_def)
  have b: "withdrawer_canPerform example_withdrawer_env AllowlistTokenSel
     (sender \<lparr>sender = 1, timestamp = 0\<rparr>)"
    by (simp add: example_withdrawer_env_def)
  have d: "\<not> isWithdrawableToken \<lparr>w_protocolFeesCollector = 9, denylistedTokens = [6, 4]\<rparr> 4"
    and w: "isWithdrawableToken \<lparr>w_protocolFeesCollector = 9, denylistedTokens = [6, 4]\<rparr> 5"
    by (simp_all add: isWithdrawableToken_def es_contains_def)
  note t = denylist_set_semantics [OF example_withdrawer_constructed
      example_withdrawer_exec [symmetric]]
  show ?thesis
    using example_withdrawer_constructed a na b d w
      t [of example_denylister_env "\<lparr>sender = 1, timestamp = 0\<rparr>" 4]
      t [of example_withdrawer_env "\<lparr>sender = 1, timestamp = 0\<rparr>" 5]
    by blast
qed

theorem denylist_unauthorised_counterexample:
  "withdrawer_constructor 9 [3, 4] = Inr example_withdrawer \<and>
   isWithdrawableToken example_withdrawer 5 \<and>
   denylistToken example_withdrawer_env \<lparr>sender = 2, timestamp = 0\<rparr> 5 example_withdrawer =
     Inl SENDER_NOT_ALLOWED \<and>
   \<not> isWithdrawableToken example_withdrawer 3 \<and>
   allowlistToken example_withdrawer_env \<lparr>sender = 2, timestamp = 0\<rparr> 3 example_withdrawer =
     Inl SENDER_NOT_ALLOWED"
  by (simp add: example_withdrawer_constructed)
    (simp add: example_withdrawer_def example_withdrawer_env_def isWithdrawableToken_def
      es_contains_def denylistToken_def allowlistToken_def)



theorem empty_withdrawal_passes_denylist_witness:
  "isWithdrawableTokens example_withdrawer [] \<and>
   withdrawCollectedFees example_withdrawer_env \<lparr>sender = 1, timestamp = 0\<rparr> [] [] 7
     example_withdrawer =
     Inr (example_withdrawer, CollectorWithdrawCollectedFees 9 [] [] 7)"
  using empty_withdrawal_passes_denylist [of example_withdrawer example_withdrawer_env
      "\<lparr>sender = 1, timestamp = 0\<rparr>" 7]
  by (simp add: example_withdrawer_env_def withdrawer_getProtocolFeesCollector_def
      example_withdrawer_def)

section \<open>Properties of bytecode linking\<close>

lemma apply_fixup_replace_range:
  "apply_fixup b address f =
     replace_range b (2 * fixup_start f) (2 * (fixup_start f + fixup_length f)) (drop 2 address)"
  by (simp add: apply_fixup_def replace_range_def substr1_def substr2_def mult.commute)

lemma linked_spec_append:
  "linked_spec b (xs @ ys) = linked_spec (linked_spec b xs) ys"
  by (simp add: linked_spec_def)

lemma link_fixups_string:
  "link_fixups b (JSString address) fixups =
     Inr (linked_spec b (map (\<lambda>f. (address, f)) fixups))"
  by (induction fixups arbitrary: b) (simp_all add: linked_spec_def apply_fixup_replace_range)

lemma link_fixups_not_a_string:
  "link_fixups b NotAString fixups = (if fixups = [] then Inr b else Inl TypeError)"
  by (cases fixups) simp_all

lemma libraries_lookup_cases:
  "libraries_lookup libraries libName = Undefined \<longleftrightarrow>
     libraries libName = None \<and> libName \<notin> set object_prototype_keys"
  "libraries_lookup libraries libName = NotAString \<longleftrightarrow>
     libraries libName = None \<and> libName \<in> set object_prototype_keys"
  "libraries_lookup libraries libName = JSString address \<longleftrightarrow>
     libraries libName = Some address"
  by (simp_all add: libraries_lookup_def split: option.splits)

lemma link_file_spec:
  "link_file libraries b fileReferences =
     (if file_inherited libraries fileReferences then Inl TypeError
      else Inr (linked_spec b (file_resolved libraries fileReferences)))"
proof (induction fileReferences arbitrary: b)
  case Nil
  show ?case by (simp add: linked_spec_def file_resolved_def file_inherited_def)
next
  case (Cons r rs)
  obtain libName fixups where r: "r = (libName, fixups)" by (cases r)
  have fi: "file_inherited libraries ((libName, fixups) # rs) \<longleftrightarrow>
      (libraries_lookup libraries libName = NotAString \<and> fixups \<noteq> []) \<or>
      file_inherited libraries rs"
    by (simp add: file_inherited_def)
  have fr: "file_resolved libraries ((libName, fixups) # rs) =
      (case libraries libName of None \<Rightarrow> [] | Some address \<Rightarrow> map (\<lambda>f. (address, f)) fixups)
      @ file_resolved libraries rs"
    by (simp add: file_resolved_def)
  show ?case
  proof (cases "libraries_lookup libraries libName")
    case Undefined
    then have "libraries libName = None" by (simp add: libraries_lookup_cases)
    then show ?thesis using Undefined by (simp add: r fi fr Cons.IH)
  next
    case (JSString address)
    then have "libraries libName = Some address" by (simp add: libraries_lookup_cases)
    then show ?thesis
      using JSString by (simp add: r fi fr Cons.IH link_fixups_string linked_spec_append)
  next
    case NotAString
    then have "libraries libName = None" by (simp add: libraries_lookup_cases)
    then have fr': "file_resolved libraries ((libName, fixups) # rs) = file_resolved libraries rs"
      by (simp add: fr)
    show ?thesis
    proof (cases "fixups = []")
      case True
      have "link_file libraries b ((libName, fixups) # rs) = link_file libraries b rs"
        using NotAString True by simp
      moreover have "file_inherited libraries ((libName, fixups) # rs) =
          file_inherited libraries rs"
        using True by (simp add: file_inherited_def)
      ultimately show ?thesis by (simp only: r fr' Cons.IH)
    next
      case False
      have "link_file libraries b ((libName, fixups) # rs) = Inl TypeError"
        using NotAString False by (simp add: link_fixups_not_a_string)
      moreover have "file_inherited libraries ((libName, fixups) # rs)"
        using NotAString False by (simp only: fi simp_thms)
      ultimately show ?thesis by (simp only: r if_True)
    qed
  qed
qed

lemma link_files_spec:
  "link_files libraries b refs =
     (if inherited_name_used libraries refs then Inl TypeError
      else Inr (linked_spec b (resolved_fixups libraries refs)))"
proof (induction refs arbitrary: b)
  case Nil
  show ?case by (simp add: linked_spec_def resolved_fixups_def inherited_name_used_def)
next
  case (Cons r rs)
  obtain fname fileReferences where r: "r = (fname, fileReferences)" by (cases r)
  have iu: "inherited_name_used libraries ((fname, fileReferences) # rs) \<longleftrightarrow>
      file_inherited libraries fileReferences \<or> inherited_name_used libraries rs"
    by (simp add: inherited_name_used_def file_inherited_def)
  have rf: "resolved_fixups libraries ((fname, fileReferences) # rs) =
      file_resolved libraries fileReferences @ resolved_fixups libraries rs"
    by (simp add: resolved_fixups_def file_resolved_def)
  show ?case
    by (simp add: r iu rf Cons.IH link_file_spec linked_spec_append)
qed

lemma replace_range_length:
  assumes "length address = 42" "fixup_length f = 20" "fixup_in_bounds (length b) f"
  shows "length (replace_range b (2 * fixup_start f) (2 * (fixup_start f + fixup_length f))
           (drop 2 address)) = length b"
  using assms by (simp add: replace_range_def fixup_in_bounds_def)

lemma replace_range_ascii:
  assumes "list_all is_ascii b" "list_all is_ascii address"
  shows "list_all is_ascii (replace_range b i j (drop 2 address))"
  using assms
  by (auto simp add: replace_range_def list_all_iff dest: in_set_takeD in_set_dropD)

lemma linked_spec_length_ascii:
  assumes "\<forall>(address, f) \<in> set afs.
             length address = 42 \<and> list_all is_ascii address \<and>
             fixup_length f = 20 \<and> fixup_in_bounds n f"
    and "length b = n" and "list_all is_ascii b"
  shows "length (linked_spec b afs) = n \<and> list_all is_ascii (linked_spec b afs)"
  using assms
proof (induction afs arbitrary: b)
  case Nil
  then show ?case by (simp add: linked_spec_def)
next
  case (Cons x afs)
  obtain address f where x: "x = (address, f)" by (cases x)
  let ?b = "replace_range b (2 * fixup_start f) (2 * (fixup_start f + fixup_length f))
              (drop 2 address)"
  have "length ?b = n"
    using Cons.prems x replace_range_length [of address f b] by simp
  moreover have "list_all is_ascii ?b"
    using Cons.prems x by (intro replace_range_ascii) simp_all
  moreover have "linked_spec b (x # afs) = linked_spec ?b afs"
    by (simp add: linked_spec_def x)
  ultimately show ?case using Cons.IH [of ?b] Cons.prems(1) by simp
qed

lemma all_fixups_Cons:
  "all_fixups ((fname, fileReferences) # rs) = concat (map snd fileReferences) @ all_fixups rs"
  by (simp add: all_fixups_def)

lemma all_libNames_Cons:
  "all_libNames ((fname, fileReferences) # rs) = map fst fileReferences @ all_libNames rs"
  by (simp add: all_libNames_def)

lemma file_resolved_subset:
  assumes "(address, f) \<in> set (file_resolved libraries fileReferences)"
  shows "f \<in> set (concat (map snd fileReferences)) \<and>
         (\<exists>name \<in> set (map fst fileReferences). libraries name = Some address)"
  using assms
proof (induction fileReferences)
  case Nil
  then show ?case by (simp add: file_resolved_def)
next
  case (Cons r rs)
  obtain libName fixups where r: "r = (libName, fixups)" by (cases r)
  from Cons.prems have "(address, f) \<in> set (case libraries libName of
            None \<Rightarrow> []
          | Some address \<Rightarrow> map (\<lambda>f. (address, f)) fixups)
      \<or> (address, f) \<in> set (file_resolved libraries rs)"
    by (simp add: r file_resolved_def)
  then consider
    (here) "(address, f) \<in> set (case libraries libName of
            None \<Rightarrow> []
          | Some address \<Rightarrow> map (\<lambda>f. (address, f)) fixups)"
    | (later) "(address, f) \<in> set (file_resolved libraries rs)"
    by blast
  then show ?case
  proof cases
    case here
    then have "libraries libName = Some address \<and> f \<in> set fixups"
      by (cases "libraries libName") auto
    then show ?thesis by (simp add: r)
  next
    case later
    then show ?thesis using Cons.IH by (auto simp add: r)
  qed
qed

lemma resolved_fixups_subset:
  assumes "(address, f) \<in> set (resolved_fixups libraries refs)"
  shows "f \<in> set (all_fixups refs) \<and>
         (\<exists>name \<in> set (all_libNames refs). libraries name = Some address)"
  using assms
proof (induction refs)
  case Nil
  then show ?case by (simp add: resolved_fixups_def)
next
  case (Cons r rs)
  obtain fname fileReferences where r: "r = (fname, fileReferences)" by (cases r)
  from Cons.prems have "(address, f) \<in> set (file_resolved libraries fileReferences)
      \<or> (address, f) \<in> set (resolved_fixups libraries rs)"
    by (simp add: r resolved_fixups_def file_resolved_def)
  then consider
    (here) "(address, f) \<in> set (file_resolved libraries fileReferences)"
    | (later) "(address, f) \<in> set (resolved_fixups libraries rs)"
    by blast
  then show ?case
  proof cases
    case here
    from file_resolved_subset [OF here] show ?thesis
      unfolding r all_fixups_Cons all_libNames_Cons set_append by blast
  next
    case later
    from Cons.IH [OF later] show ?thesis
      unfolding r all_fixups_Cons all_libNames_Cons set_append by blast
  qed
qed

lemma resolved_fixups_none:
  assumes "\<forall>name \<in> set (all_libNames refs). libraries name = None"
  shows "resolved_fixups libraries refs = []"
proof (cases "resolved_fixups libraries refs")
  case Nil
  then show ?thesis .
next
  case (Cons x xs)
  obtain address f where "x = (address, f)" by (cases x)
  then have "(address, f) \<in> set (resolved_fixups libraries refs)" using Cons by simp
  from resolved_fixups_subset [OF this] assms show ?thesis by auto
qed

lemma inherited_name_used_name:
  assumes "inherited_name_used libraries refs"
  shows "\<exists>name \<in> set (all_libNames refs). libraries_lookup libraries name = NotAString"
  using assms
proof (induction refs)
  case Nil
  then show ?case by (simp add: inherited_name_used_def)
next
  case (Cons r rs)
  obtain fname fileReferences where r: "r = (fname, fileReferences)" by (cases r)
  from Cons.prems have "file_inherited libraries fileReferences \<or> inherited_name_used libraries rs"
    by (simp add: inherited_name_used_def file_inherited_def r)
  then show ?case
  proof
    assume "file_inherited libraries fileReferences"
    then obtain libName fixups where "(libName, fixups) \<in> set fileReferences"
      "libraries_lookup libraries libName = NotAString"
      by (auto simp add: file_inherited_def list_ex_iff)
    then have "libName \<in> set (map fst fileReferences)" by force
    with \<open>libraries_lookup libraries libName = NotAString\<close> show ?thesis
      unfolding r all_libNames_Cons set_append by blast
  next
    assume "inherited_name_used libraries rs"
    from Cons.IH [OF this] show ?thesis
      unfolding r all_libNames_Cons set_append by blast
  qed
qed

text \<open>
  Claim C7, as amended. Bytecode linking: \<open>linkBytecode\<close> replaces, for each fixup
  of each link reference whose library name has an address in the map, in order, the
  characters from \<open>2 * start\<close> up to \<open>2 * (start + length)\<close> by the address
  without its first two characters, leaves references to libraries whose lookup in the
  map is undefined untouched, lowercases the result and changes nothing else of the
  artifact, unless a reference with a fixup names a library that the map only inherits
  from \<open>Object.prototype\<close>, in which case the call throws; when the bytecode and every
  supplied address consist of ASCII characters, every supplied address has 42
  characters and every fixup has length 20 and ends within the bytecode, the length of
  the bytecode is unchanged.
\<close>

theorem linkBytecode_links:
  "(inherited_name_used libraries (linkReferences a) \<longrightarrow>
      linkBytecode unicode_toLowerCase a libraries = Inl TypeError) \<and>
   (\<not> inherited_name_used libraries (linkReferences a) \<longrightarrow>
      linkBytecode unicode_toLowerCase a libraries =
        Inr (a\<lparr>bytecode_object :=
               toLowerCase unicode_toLowerCase
                 (linked_spec (bytecode_object a)
                    (resolved_fixups libraries (linkReferences a)))\<rparr>)) \<and>
   ((\<forall>name \<in> set (all_libNames (linkReferences a)).
        libraries_lookup libraries name = Undefined) \<longrightarrow>
      linkBytecode unicode_toLowerCase a libraries =
        Inr (a\<lparr>bytecode_object := toLowerCase unicode_toLowerCase (bytecode_object a)\<rparr>)) \<and>
   (\<not> inherited_name_used libraries (linkReferences a) \<and>
    list_all is_ascii (bytecode_object a) \<and>
    (\<forall>name \<in> set (all_libNames (linkReferences a)). \<forall>address.
        libraries name = Some address \<longrightarrow> length address = 42 \<and> list_all is_ascii address) \<and>
    (\<forall>f \<in> set (all_fixups (linkReferences a)).
        fixup_length f = 20 \<and> fixup_in_bounds (length (bytecode_object a)) f) \<longrightarrow>
      (\<exists>a'. linkBytecode unicode_toLowerCase a libraries = Inr a' \<and>
            length (bytecode_object a') = length (bytecode_object a) \<and>
            bytecode_object a' =
              map ascii_toLowerCase
                (linked_spec (bytecode_object a)
                   (resolved_fixups libraries (linkReferences a)))))"
proof (intro conjI impI)
  assume "inherited_name_used libraries (linkReferences a)"
  then show "linkBytecode unicode_toLowerCase a libraries = Inl TypeError"
    by (simp add: linkBytecode_def link_files_spec)
next
  assume "\<not> inherited_name_used libraries (linkReferences a)"
  then show "linkBytecode unicode_toLowerCase a libraries =
        Inr (a\<lparr>bytecode_object :=
               toLowerCase unicode_toLowerCase
                 (linked_spec (bytecode_object a)
                    (resolved_fixups libraries (linkReferences a)))\<rparr>)"
    by (simp add: linkBytecode_def link_files_spec)
next
  assume u: "\<forall>name \<in> set (all_libNames (linkReferences a)).
        libraries_lookup libraries name = Undefined"
  have n: "\<not> inherited_name_used libraries (linkReferences a)"
  proof
    assume "inherited_name_used libraries (linkReferences a)"
    from inherited_name_used_name [OF this] u show False by auto
  qed
  have "\<forall>name \<in> set (all_libNames (linkReferences a)). libraries name = None"
    using u by (simp add: libraries_lookup_cases)
  then have "resolved_fixups libraries (linkReferences a) = []"
    by (rule resolved_fixups_none)
  then show "linkBytecode unicode_toLowerCase a libraries =
        Inr (a\<lparr>bytecode_object := toLowerCase unicode_toLowerCase (bytecode_object a)\<rparr>)"
    using n by (simp add: linkBytecode_def link_files_spec linked_spec_def)
next
  assume h: "\<not> inherited_name_used libraries (linkReferences a) \<and>
    list_all is_ascii (bytecode_object a) \<and>
    (\<forall>name \<in> set (all_libNames (linkReferences a)). \<forall>address.
        libraries name = Some address \<longrightarrow> length address = 42 \<and> list_all is_ascii address) \<and>
    (\<forall>f \<in> set (all_fixups (linkReferences a)).
        fixup_length f = 20 \<and> fixup_in_bounds (length (bytecode_object a)) f)"
  let ?l = "linked_spec (bytecode_object a) (resolved_fixups libraries (linkReferences a))"
  have "\<forall>(address, f) \<in> set (resolved_fixups libraries (linkReferences a)).
            length address = 42 \<and> list_all is_ascii address \<and> fixup_length f = 20 \<and>
            fixup_in_bounds (length (bytecode_object a)) f"
    using h resolved_fixups_subset [of _ _ libraries "linkReferences a"] by blast
  then have l: "length ?l = length (bytecode_object a) \<and> list_all is_ascii ?l"
    using h by (intro linked_spec_length_ascii) simp_all
  then have "toLowerCase unicode_toLowerCase ?l = map ascii_toLowerCase ?l"
    by (simp add: toLowerCase_def)
  moreover have "linkBytecode unicode_toLowerCase a libraries =
      Inr (a\<lparr>bytecode_object := toLowerCase unicode_toLowerCase ?l\<rparr>)"
    using h by (simp add: linkBytecode_def link_files_spec)
  ultimately show "\<exists>a'. linkBytecode unicode_toLowerCase a libraries = Inr a' \<and>
            length (bytecode_object a') = length (bytecode_object a) \<and>
            bytecode_object a' = map ascii_toLowerCase ?l"
    using l by simp
qed

lemma example_linked:
  "linkBytecode example_unicode_toLowerCase example_artifact example_libraries =
     Inr (example_artifact\<lparr>bytecode_object :=
            js ''60abcdef0123456789abcdef0123456789abcdef015b''\<rparr>)"
  by code_simp

theorem linkBytecode_links_witness:
  "libraries_lookup example_libraries (js ''MathLib'') =
     JSString (js ''0xAbCdEf0123456789aBcDeF0123456789abcdef01'') \<and>
   libraries_lookup example_libraries (js ''OtherLib'') = Undefined \<and>
   length (js ''0xAbCdEf0123456789aBcDeF0123456789abcdef01'') = 42 \<and>
   all_fixups (linkReferences example_artifact) =
     [\<lparr>fixup_start = 1, fixup_length = 20\<rparr>, \<lparr>fixup_start = 0, fixup_length = 20\<rparr>] \<and>
   linkBytecode example_unicode_toLowerCase example_artifact example_libraries =
     Inr (example_artifact\<lparr>bytecode_object :=
            js ''60abcdef0123456789abcdef0123456789abcdef015b''\<rparr>) \<and>
   (\<exists>a'. linkBytecode example_unicode_toLowerCase example_artifact example_libraries = Inr a' \<and>
      length (bytecode_object a') = length (bytecode_object example_artifact)) \<and>
   linkBytecode example_unicode_toLowerCase example_artifact Map.empty =
     Inr (example_artifact\<lparr>bytecode_object :=
            toLowerCase example_unicode_toLowerCase (bytecode_object example_artifact)\<rparr>) \<and>
   inherited_name_used Map.empty (linkReferences example_artifact_toString) \<and>
   linkBytecode example_unicode_toLowerCase example_artifact_toString Map.empty = Inl TypeError"
proof -
  have n: "all_libNames (linkReferences example_artifact) = [js ''MathLib'', js ''OtherLib'']"
    by (simp add: all_libNames_def example_artifact_def)
  have f: "all_fixups (linkReferences example_artifact) =
     [\<lparr>fixup_start = 1, fixup_length = 20\<rparr>, \<lparr>fixup_start = 0, fixup_length = 20\<rparr>]"
    by (simp add: all_fixups_def example_artifact_def)
  have l: "libraries_lookup example_libraries (js ''MathLib'') =
       JSString (js ''0xAbCdEf0123456789aBcDeF0123456789abcdef01'')"
    "libraries_lookup example_libraries (js ''OtherLib'') = Undefined"
    by code_simp+
  have e: "libraries_lookup Map.empty (js ''MathLib'') = Undefined"
    "libraries_lookup Map.empty (js ''OtherLib'') = Undefined"
    by code_simp+
  have a: "length (js ''0xAbCdEf0123456789aBcDeF0123456789abcdef01'') = 42"
    by (simp add: js_def)
  have asc: "list_all is_ascii (js ''0xAbCdEf0123456789aBcDeF0123456789abcdef01'')"
    "list_all is_ascii (bytecode_object example_artifact)"
    by code_simp+
  have len: "length (bytecode_object example_artifact) = 44"
    by (simp add: example_artifact_def js_def)
  have ni: "\<not> inherited_name_used example_libraries (linkReferences example_artifact)"
    by code_simp
  have iu: "inherited_name_used Map.empty (linkReferences example_artifact_toString)"
    by code_simp
  have h1: "\<forall>name \<in> set (all_libNames (linkReferences example_artifact)).
      libraries_lookup Map.empty name = Undefined"
    by (simp add: n e)
  have h2: "\<not> inherited_name_used example_libraries (linkReferences example_artifact) \<and>
    list_all is_ascii (bytecode_object example_artifact) \<and>
    (\<forall>name \<in> set (all_libNames (linkReferences example_artifact)). \<forall>address.
        example_libraries name = Some address \<longrightarrow>
          length address = 42 \<and> list_all is_ascii address) \<and>
    (\<forall>f \<in> set (all_fixups (linkReferences example_artifact)).
        fixup_length f = 20 \<and>
        fixup_in_bounds (length (bytecode_object example_artifact)) f)"
    using ni asc a l
    by (auto simp add: n f len fixup_in_bounds_def libraries_lookup_cases)
  from h2 linkBytecode_links [of example_libraries example_artifact example_unicode_toLowerCase]
  have p: "\<exists>a'. linkBytecode example_unicode_toLowerCase example_artifact example_libraries = Inr a' \<and>
      length (bytecode_object a') = length (bytecode_object example_artifact)"
    by blast
  from h1 linkBytecode_links [of Map.empty example_artifact example_unicode_toLowerCase]
  have q: "linkBytecode example_unicode_toLowerCase example_artifact Map.empty =
     Inr (example_artifact\<lparr>bytecode_object :=
            toLowerCase example_unicode_toLowerCase (bytecode_object example_artifact)\<rparr>)"
    by blast
  from iu linkBytecode_links [of Map.empty example_artifact_toString example_unicode_toLowerCase]
  have t: "linkBytecode example_unicode_toLowerCase example_artifact_toString Map.empty =
     Inl TypeError"
    by blast
  show ?thesis
    using l a f example_linked p q iu t by blast
qed

theorem linkBytecode_length_counterexample:
  "example_libraries (js ''MathLib'') = Some (js ''0xAbCdEf0123456789aBcDeF0123456789abcdef01'') \<and>
   length (js ''0xAbCdEf0123456789aBcDeF0123456789abcdef01'') = 42 \<and>
   all_fixups (linkReferences example_artifact_short) =
     [\<lparr>fixup_start = 0, fixup_length = 20\<rparr>] \<and>
   bytecode_object example_artifact_short = js ''60'' \<and>
   linkBytecode example_unicode_toLowerCase example_artifact_short example_libraries =
     Inr (example_artifact_short\<lparr>bytecode_object :=
            js ''abcdef0123456789abcdef0123456789abcdef01''\<rparr>) \<and>
   length (js ''abcdef0123456789abcdef0123456789abcdef01'') \<noteq> length (js ''60'') \<and>
   example_libraries_dotted (js ''MathLib'') =
     Some (js ''0x'' @ [304] @ js ''bCdEf0123456789aBcDeF0123456789abcdef01'') \<and>
   length (js ''0x'' @ [304] @ js ''bCdEf0123456789aBcDeF0123456789abcdef01'') = 42 \<and>
   all_fixups (linkReferences example_artifact) =
     [\<lparr>fixup_start = 1, fixup_length = 20\<rparr>, \<lparr>fixup_start = 0, fixup_length = 20\<rparr>] \<and>
   length (bytecode_object example_artifact) = 44 \<and>
   linkBytecode example_unicode_toLowerCase example_artifact example_libraries_dotted =
     Inr (example_artifact\<lparr>bytecode_object :=
            js ''60i'' @ [775] @ js ''bcdef0123456789abcdef0123456789abcdef015b''\<rparr>) \<and>
   length (js ''60i'' @ [775] @ js ''bcdef0123456789abcdef0123456789abcdef015b'') = 45 \<and>
   Map.empty (js ''toString'') = (None :: js_string option) \<and>
   linkReferences example_artifact_toString =
     [(js ''contracts/Pool.sol'',
         [(js ''toString'', [\<lparr>fixup_start = 1, fixup_length = 20\<rparr>])])] \<and>
   linkBytecode example_unicode_toLowerCase example_artifact_toString Map.empty = Inl TypeError"
  by (intro conjI; code_simp)

section \<open>Properties of the compiler overrides\<close>

lemma js_replace_cases:
  "js_replace s pat [] = s \<or> (\<exists>a c. s = a @ pat @ c \<and> js_replace s pat [] = a @ c)"
proof (induction s)
  case Nil
  show ?case by simp
next
  case (Cons x xs)
  show ?case
  proof (cases "prefix pat (x # xs)")
    case True
    then obtain c where c: "x # xs = pat @ c" by (auto simp add: prefix_def)
    have "js_replace (x # xs) pat [] = drop (length pat) (x # xs)" using True by simp
    also have "\<dots> = drop (length pat) (pat @ c)" by (simp only: c)
    also have "\<dots> = c" by simp
    finally have "js_replace (x # xs) pat [] = c" .
    with c have "x # xs = [] @ pat @ c \<and> js_replace (x # xs) pat [] = [] @ c" by simp
    then show ?thesis by blast
  next
    case False
    from Cons.IH show ?thesis
    proof
      assume "js_replace xs pat [] = xs"
      then show ?thesis using False by simp
    next
      assume "\<exists>a c. xs = a @ pat @ c \<and> js_replace xs pat [] = a @ c"
      then obtain a c where "xs = a @ pat @ c" "js_replace xs pat [] = a @ c" by blast
      then have "x # xs = (x # a) @ pat @ c \<and> js_replace (x # xs) pat [] = (x # a) @ c"
        using False by simp
      then show ?thesis by blast
    qed
  qed
qed

lemma js_replace_absent:
  "\<not> (\<exists>a c. s = a @ pat @ c) \<Longrightarrow> js_replace s pat rep = s"
proof (induction s)
  case Nil
  then have "pat \<noteq> []" by auto
  then show ?case by simp
next
  case (Cons x xs)
  have np: "\<not> prefix pat (x # xs)"
  proof
    assume "prefix pat (x # xs)"
    then obtain c where "x # xs = [] @ pat @ c" by (auto simp add: prefix_def)
    with Cons.prems show False by blast
  qed
  have "\<not> (\<exists>a c. xs = a @ pat @ c)"
  proof
    assume "\<exists>a c. xs = a @ pat @ c"
    then obtain a c where "xs = a @ pat @ c" by blast
    then have "x # xs = (x # a) @ pat @ c" by simp
    with Cons.prems show False by blast
  qed
  then have "js_replace xs pat rep = xs" by (rule Cons.IH)
  then show ?case using np by simp
qed

lemma js_replace_first:
  assumes "s = a @ pat @ c"
    and "\<forall>a' c'. s = a' @ pat @ c' \<longrightarrow> length a \<le> length a'"
  shows "js_replace s pat rep = a @ rep @ c"
  using assms
proof (induction a arbitrary: s)
  case Nil
  show ?case
  proof (cases s)
    case Nil
    with Nil.prems(1) show ?thesis by simp
  next
    case (Cons x xs)
    have e: "x # xs = pat @ c" using Nil.prems(1) Cons by simp
    then have "prefix pat (x # xs)" by (simp add: prefix_def)
    then have "js_replace (x # xs) pat rep = rep @ drop (length pat) (x # xs)" by simp
    also have "\<dots> = rep @ drop (length pat) (pat @ c)" by (simp only: e)
    also have "\<dots> = [] @ rep @ c" by simp
    finally show ?thesis by (simp only: Cons)
  qed
next
  case (Cons y a2)
  have s: "s = y # (a2 @ pat @ c)" using Cons.prems(1) by simp
  have np: "\<not> prefix pat s"
  proof
    assume "prefix pat s"
    then obtain c' where "s = [] @ pat @ c'" by (auto simp add: prefix_def)
    with Cons.prems(2) have "length (y # a2) \<le> length ([] :: string)" by blast
    then show False by simp
  qed
  have "\<forall>a' c'. a2 @ pat @ c = a' @ pat @ c' \<longrightarrow> length a2 \<le> length a'"
  proof (intro allI impI)
    fix a' c' assume "a2 @ pat @ c = a' @ pat @ c'"
    then have "s = (y # a') @ pat @ c'" using s by simp
    with Cons.prems(2) have "length (y # a2) \<le> length (y # a')" by blast
    then show "length a2 \<le> length a'" by simp
  qed
  then have "js_replace (a2 @ pat @ c) pat rep = a2 @ rep @ c"
    using Cons.IH [of "a2 @ pat @ c"] by simp
  then show ?case using np s by simp
qed

lemma suffix_after_separator:
  assumes "xs @ sep # c = pre @ tail" "sep \<notin> set tail"
  shows "suffix tail c"
proof -
  from assms(1) have "(xs @ [sep]) @ c = pre @ tail" by simp
  then consider
    (a) us where "xs @ [sep] = pre @ us" "us @ c = tail"
    | (b) us where "(xs @ [sep]) @ us = pre" "c = us @ tail"
    unfolding append_eq_append_conv2 by blast
  then show ?thesis
  proof cases
    case a
    show ?thesis
    proof (cases "us = []")
      case True
      with a show ?thesis by (simp add: suffix_def)
    next
      case False
      then have "last us = sep" using a(1) by (metis last_appendR last_snoc)
      then have "sep \<in> set us" using False by (metis last_in_set)
      then have "sep \<in> set tail" using a(2) by auto
      with assms(2) show ?thesis by simp
    qed
  next
    case b
    then show ?thesis by (simp add: suffix_def)
  qed
qed

lemma replaced_keys_differ:
  "js_replace ''@koyofinance/exchange-vault/contracts/Vault.sol'' (p @ ''/'') [] \<noteq>
   js_replace
     ''@koyofinance/exchange-vault-pool-oracle/contracts/oracle/OracleWeightedPoolFactory.sol''
     (p @ ''/'') []"
  (is "js_replace ?k1 ?pat [] \<noteq> js_replace ?k2 ?pat []")
proof -
  have l1: "length ?k1 = 47" and l2: "length ?k2 = 86" by simp_all
  have ne: "?k1 \<noteq> ?k2" by simp
  have k2: "?k2 = ''@koyofinance/exchange-vault-pool-oracle/contracts/oracle/'' @
                   ''OracleWeightedPoolFactory.sol''" by simp
  have nos: "CHR ''/'' \<notin> set ''OracleWeightedPoolFactory.sol''" by simp
  have nsuf: "\<not> suffix ''OracleWeightedPoolFactory.sol'' ?k1"
    by (simp add: suffix_to_prefix)
  from js_replace_cases [of ?k1 ?pat] js_replace_cases [of ?k2 ?pat]
  consider
    (same) "js_replace ?k1 ?pat [] = ?k1" "js_replace ?k2 ?pat [] = ?k2"
    | (both) a1 c1 a2 c2 where "?k1 = a1 @ ?pat @ c1" "js_replace ?k1 ?pat [] = a1 @ c1"
        "?k2 = a2 @ ?pat @ c2" "js_replace ?k2 ?pat [] = a2 @ c2"
    | (first) a1 c1 where "?k1 = a1 @ ?pat @ c1" "js_replace ?k1 ?pat [] = a1 @ c1"
        "js_replace ?k2 ?pat [] = ?k2"
    | (second) a2 c2 where "js_replace ?k1 ?pat [] = ?k1"
        "?k2 = a2 @ ?pat @ c2" "js_replace ?k2 ?pat [] = a2 @ c2"
    by blast
  then show ?thesis
  proof cases
    case same
    then show ?thesis using ne by simp
  next
    case both
    have "length (a1 @ ?pat @ c1) = 47" using both(1) l1 by simp
    moreover have "length (a2 @ ?pat @ c2) = 86" using both(3) l2 by simp
    ultimately have "length (a1 @ c1) \<noteq> length (a2 @ c2)" by simp
    then have "a1 @ c1 \<noteq> a2 @ c2" by metis
    then show ?thesis unfolding both(2) both(4) .
  next
    case first
    have "length (a1 @ ?pat @ c1) = 47" using first(1) l1 by simp
    then have "length (a1 @ c1) < 86" by simp
    then have "length (a1 @ c1) \<noteq> length ?k2" using l2 by simp
    then have "a1 @ c1 \<noteq> ?k2" by metis
    then show ?thesis unfolding first(2) first(3) .
  next
    case second
    have "(a2 @ p) @ CHR ''/'' # c2 = ''@koyofinance/exchange-vault-pool-oracle/contracts/oracle/'' @
                   ''OracleWeightedPoolFactory.sol''"
      using second(2) by simp
    then have "suffix ''OracleWeightedPoolFactory.sol'' c2"
      using nos by (rule suffix_after_separator)
    then have "suffix ''OracleWeightedPoolFactory.sol'' (a2 @ c2)"
      by (rule suffix_appendI)
    with nsuf have "?k1 \<noteq> a2 @ c2" by auto
    then show ?thesis unfolding second(1) second(3) .
  qed
qed

text \<open>
  Claim C8. Compiler overrides: for every package name, \<open>overrides\<close> has exactly one
  entry per key of \<open>contractSettings\<close>; its key is the contract path with the first
  occurrence of the package name followed by a slash removed (the path itself when
  there is none), and its value carries the contract's compiler version and an optimizer
  setting that is enabled with the contract's runs.
\<close>

theorem overrides_entries:
  "(\<forall>(contract, setting) \<in> set contractSettings.
      overrides p (js_replace contract (p @ ''/'') []) =
        Some \<lparr>version = cs_version setting,
              settings = \<lparr>optimizer = \<lparr>enabled = True, runs = Some (cs_runs setting)\<rparr>\<rparr>\<rparr>) \<and>
   dom (overrides p) =
     (\<lambda>(contract, setting). js_replace contract (p @ ''/'') []) ` set contractSettings \<and>
   card (dom (overrides p)) = length contractSettings \<and>
   (\<forall>contract. \<not> (\<exists>a c. contract = a @ (p @ ''/'') @ c) \<longrightarrow>
      js_replace contract (p @ ''/'') [] = contract) \<and>
   (\<forall>contract a c.
      contract = a @ (p @ ''/'') @ c \<and>
      (\<forall>a' c'. contract = a' @ (p @ ''/'') @ c' \<longrightarrow> length a \<le> length a') \<longrightarrow>
      js_replace contract (p @ ''/'') [] = a @ c)"
proof (intro conjI)
  note d = replaced_keys_differ [of p]
  show "\<forall>(contract, setting) \<in> set contractSettings.
      overrides p (js_replace contract (p @ ''/'') []) =
        Some \<lparr>version = cs_version setting,
              settings = \<lparr>optimizer = \<lparr>enabled = True, runs = Some (cs_runs setting)\<rparr>\<rparr>\<rparr>"
    using d by (simp add: overrides_def contractSettings_def)
  show "dom (overrides p) =
     (\<lambda>(contract, setting). js_replace contract (p @ ''/'') []) ` set contractSettings"
    by (simp add: overrides_def contractSettings_def insert_commute)
  show "card (dom (overrides p)) = length contractSettings"
    using d by (simp add: overrides_def contractSettings_def)
  show "\<forall>contract. \<not> (\<exists>a c. contract = a @ (p @ ''/'') @ c) \<longrightarrow>
      js_replace contract (p @ ''/'') [] = contract"
    using js_replace_absent by blast
  show "\<forall>contract a c.
      contract = a @ (p @ ''/'') @ c \<and>
      (\<forall>a' c'. contract = a' @ (p @ ''/'') @ c' \<longrightarrow> length a \<le> length a') \<longrightarrow>
      js_replace contract (p @ ''/'') [] = a @ c"
    using js_replace_first [where rep = "[]"] by (metis append_Nil)
qed

lemma example_replace_vault:
  "js_replace ''@koyofinance/exchange-vault/contracts/Vault.sol''
     (''@koyofinance/exchange-vault'' @ ''/'') [] = ''contracts/Vault.sol''"
  by code_simp

lemma example_replace_factory:
  "js_replace
     ''@koyofinance/exchange-vault-pool-oracle/contracts/oracle/OracleWeightedPoolFactory.sol''
     (''@koyofinance/exchange-vault'' @ ''/'') [] =
   ''@koyofinance/exchange-vault-pool-oracle/contracts/oracle/OracleWeightedPoolFactory.sol''"
  by code_simp

theorem overrides_entries_witness:
  "overrides ''@koyofinance/exchange-vault'' ''contracts/Vault.sol'' =
     Some \<lparr>version = ''0.7.1'',
           settings = \<lparr>optimizer = \<lparr>enabled = True, runs = Some 1500\<rparr>\<rparr>\<rparr> \<and>
   overrides ''@koyofinance/exchange-vault''
     ''@koyofinance/exchange-vault-pool-oracle/contracts/oracle/OracleWeightedPoolFactory.sol'' =
     Some \<lparr>version = ''0.7.1'',
           settings = \<lparr>optimizer = \<lparr>enabled = True, runs = Some 200\<rparr>\<rparr>\<rparr> \<and>
   card (dom (overrides ''@koyofinance/exchange-vault'')) = 2"
  using overrides_entries [of "''@koyofinance/exchange-vault''"]
  by (simp add: contractSettings_def example_replace_vault [simplified]
      example_replace_factory [simplified])

end
